theory Spec2Isabelle
  imports Main "HOL-Library.Multiset"
begin

section \<open>ntree: a directory tree printer\<close>

text \<open>
  The program \<^verbatim>\<open>ntree.c\<close> prints the contents of a directory as a tree. Its
  function \<^verbatim>\<open>list_directory_recursive\<close> opens a directory, reads all entries
  into a growing array (phase 1), sorts them with \<^verbatim>\<open>qsort\<close> (phase 2) and
  prints one line per entry, calling itself on every entry that is a directory
  (phase 3).

  C strings are modelled as \<open>string\<close>, the list of the bytes before the
  terminating NUL. The box-drawing glyphs of the source are UTF-8, three bytes
  each, and are written out byte by byte.
\<close>

subsection \<open>Entries and their order\<close>

text \<open>
  \<^verbatim>\<open>typedef struct { char *name; int is_dir; } DirEntry;\<close>
  The field \<^verbatim>\<open>is_dir\<close> holds the truth value of \<^verbatim>\<open>S_ISDIR\<close> and is only ever
  tested for being zero.
\<close>

record DirEntry =
  name :: string
  is_dir :: bool

text \<open>
  The library function \<^verbatim>\<open>strcmp\<close> compares two strings byte by byte, the bytes
  read as \<^verbatim>\<open>unsigned char\<close>; a string that ends first is the smaller one. The C
  standard fixes the sign of the result only, so the model returns \<open>-1\<close>, \<open>0\<close>
  or \<open>1\<close>.
\<close>

fun strcmp :: "string \<Rightarrow> string \<Rightarrow> int" where
  "strcmp [] [] = 0"
| "strcmp [] (y # ys) = - 1"
| "strcmp (x # xs) [] = 1"
| "strcmp (x # xs) (y # ys) =
     (if x = y then strcmp xs ys
      else if (of_char x :: nat) < of_char y then - 1 else 1)"

definition compareDirEntries :: "DirEntry \<Rightarrow> DirEntry \<Rightarrow> int" where
  "compareDirEntries entryA entryB =
     (if is_dir entryA \<and> \<not> is_dir entryB then - 1
      else if \<not> is_dir entryA \<and> is_dir entryB then 1
      else strcmp (name entryA) (name entryB))"

text \<open>
  The library function \<^verbatim>\<open>qsort\<close> sorts an array with respect to a comparison
  function; which algorithm it runs, and where it leaves elements that compare
  equal, is not fixed. The model sorts by insertion. Lemma \<open>qsort_unique\<close>
  below shows that for \<open>compareDirEntries\<close> the choice makes no difference:
  every sorted rearrangement of the entries is the same list.
\<close>

fun qsort_insert :: "('a \<Rightarrow> 'a \<Rightarrow> int) \<Rightarrow> 'a \<Rightarrow> 'a list \<Rightarrow> 'a list" where
  "qsort_insert compar e [] = [e]"
| "qsort_insert compar e (x # xs) =
     (if compar e x \<le> 0 then e # x # xs else x # qsort_insert compar e xs)"

definition qsort :: "('a \<Rightarrow> 'a \<Rightarrow> int) \<Rightarrow> 'a list \<Rightarrow> 'a list" where
  "qsort compar xs = foldr (qsort_insert compar) xs []"

text \<open>
  The two sentences of the ordering, written without the comparison function:
  a directory before a file, and within one kind the names in the
  lexicographic order of their bytes.
\<close>

definition byte_less :: "(char \<times> char) set" where
  "byte_less = {(c, d). (of_char c :: nat) < of_char d}"

definition entry_before :: "DirEntry \<Rightarrow> DirEntry \<Rightarrow> bool" where
  "entry_before a b \<longleftrightarrow>
     (is_dir a \<and> \<not> is_dir b) \<or>
     (is_dir a = is_dir b \<and> (name a = name b \<or> (name a, name b) \<in> lexord byte_less))"

subsection \<open>The environment and the state of a run\<close>

text \<open>
  The program sees the file system through \<^verbatim>\<open>opendir\<close>/\<^verbatim>\<open>readdir\<close> and
  \<^verbatim>\<open>stat\<close>, and the allocator through \<^verbatim>\<open>malloc\<close>, \<^verbatim>\<open>realloc\<close> and
  \<^verbatim>\<open>strdup\<close>. The environment of a run fixes what they answer:
  \<^item> \<open>fs_opendir p\<close> is \<open>None\<close> when \<^verbatim>\<open>opendir(p)\<close> returns \<^verbatim>\<open>NULL\<close>, and
    otherwise the names that successive calls of \<^verbatim>\<open>readdir\<close> return, in that
    order, the entries \<^verbatim>\<open>.\<close> and \<^verbatim>\<open>..\<close> among them;
  \<^item> \<open>fs_stat p\<close> is \<open>None\<close> when \<^verbatim>\<open>stat(p, &statbuf)\<close> returns \<open>-1\<close>, and
    otherwise the value of \<^verbatim>\<open>S_ISDIR(statbuf.st_mode)\<close>;
  \<^item> \<open>alloc_ok k\<close> tells whether the allocation request number \<open>k\<close> of the run
    (counted from 0) succeeds.
\<close>

record env =
  fs_opendir :: "string \<Rightarrow> string list option"
  fs_stat :: "string \<Rightarrow> bool option"
  alloc_ok :: "nat \<Rightarrow> bool"

text \<open>
  What a run changes: the bytes written to the standard output, the messages
  written to the standard error stream, the number of allocation requests made
  so far, and the resources the program holds (blocks of memory and open
  directory streams).
\<close>

datatype diag = Fprintf string | Perror string

datatype resource = Entries_array | Name_copy string | Dir_stream string

record state =
  out :: string
  err :: "diag list"
  nalloc :: nat
  heap :: "resource multiset"

definition printf :: "string \<Rightarrow> state \<Rightarrow> state" where
  "printf txt s = s\<lparr>out := out s @ txt\<rparr>"

definition fprintf_stderr :: "string \<Rightarrow> state \<Rightarrow> state" where
  "fprintf_stderr txt s = s\<lparr>err := err s @ [Fprintf txt]\<rparr>"

text \<open>
  \<^verbatim>\<open>perror(msg)\<close> writes \<open>msg\<close>, a colon and the system's text for \<^verbatim>\<open>errno\<close>;
  the model records \<open>msg\<close>.
\<close>

definition perror :: "string \<Rightarrow> state \<Rightarrow> state" where
  "perror msg s = s\<lparr>err := err s @ [Perror msg]\<rparr>"

text \<open>
  \<open>alloc\<close> stands for a call of \<^verbatim>\<open>malloc\<close> or \<^verbatim>\<open>strdup\<close>: the request is
  counted, and when it succeeds the new block is held. A successful
  \<^verbatim>\<open>realloc\<close> gives the old block back for the new one, a failed one leaves
  the old block as it is, so the resources held stay the same in both cases.
\<close>

definition alloc :: "env \<Rightarrow> resource \<Rightarrow> state \<Rightarrow> bool \<times> state" where
  "alloc env r s =
     (if alloc_ok env (nalloc s)
      then (True, s\<lparr>nalloc := Suc (nalloc s), heap := add_mset r (heap s)\<rparr>)
      else (False, s\<lparr>nalloc := Suc (nalloc s)\<rparr>))"

definition realloc :: "env \<Rightarrow> state \<Rightarrow> bool \<times> state" where
  "realloc env s = (alloc_ok env (nalloc s), s\<lparr>nalloc := Suc (nalloc s)\<rparr>)"

text \<open>
  \<^verbatim>\<open>free\<close> gives a block back. \<open>opened path\<close> is what a successful
  \<^verbatim>\<open>opendir(path)\<close> leaves, a directory stream that is held until
  \<^verbatim>\<open>closedir\<close>.
\<close>

definition free :: "resource \<Rightarrow> state \<Rightarrow> state" where
  "free r s = s\<lparr>heap := heap s - {#r#}\<rparr>"

definition opened :: "string \<Rightarrow> state \<Rightarrow> state" where
  "opened path s = s\<lparr>heap := add_mset (Dir_stream path) (heap s)\<rparr>"

definition closedir :: "string \<Rightarrow> state \<Rightarrow> state" where
  "closedir path s = free (Dir_stream path) s"

subsection \<open>Paths and prefixes\<close>

text \<open>
  \<^verbatim>\<open>PATH_MAX\<close> comes from \<^verbatim>\<open><limits.h>\<close>; the source falls back to 4096, which
  is also its value on Linux.
\<close>

definition PATH_MAX :: nat where
  "PATH_MAX = 4096"

text \<open>
  \<^verbatim>\<open>snprintf(buf, n, ...)\<close> writes at most \<open>n - 1\<close> bytes of the formatted text
  and a terminating NUL; the source never looks at its return value. The
  argument \<open>txt\<close> is the formatted text.
\<close>

definition snprintf :: "nat \<Rightarrow> string \<Rightarrow> string" where
  "snprintf n txt = take (n - 1) txt"

text \<open>
  \<^verbatim>\<open>snprintf(full_path, sizeof(full_path), "%s/%s", path, name)\<close>, with
  \<^verbatim>\<open>char full_path[PATH_MAX]\<close>.
\<close>

definition full_path :: "string \<Rightarrow> string \<Rightarrow> string" where
  "full_path path d_name = snprintf PATH_MAX (path @ ''/'' @ d_name)"

text \<open>The glyphs: \<open>E2 94 94\<close> is the corner, \<open>E2 94 9C\<close> the tee, \<open>E2 94 80\<close> the
  horizontal and \<open>E2 94 82\<close> the vertical line.\<close>

definition connector :: "bool \<Rightarrow> string" where
  "connector is_last_entry =
     (if is_last_entry
      then [CHR 0xE2, CHR 0x94, CHR 0x94, CHR 0xE2, CHR 0x94, CHR 0x80, CHR 0xE2, CHR 0x94, CHR 0x80, CHR '' '']
      else [CHR 0xE2, CHR 0x94, CHR 0x9C, CHR 0xE2, CHR 0x94, CHR 0x80, CHR 0xE2, CHR 0x94, CHR 0x80, CHR '' ''])"

definition indent_unit :: "bool \<Rightarrow> string" where
  "indent_unit is_last_entry =
     (if is_last_entry then ''    '' else [CHR 0xE2, CHR 0x94, CHR 0x82, CHR '' '', CHR '' '', CHR '' ''])"

text \<open>
  \<^verbatim>\<open>snprintf(new_prefix, sizeof(new_prefix), "%s%s", prefix, is_last_entry ? ... : ...)\<close>,
  with \<^verbatim>\<open>char new_prefix[PATH_MAX]\<close>.
\<close>

definition new_prefix :: "string \<Rightarrow> bool \<Rightarrow> string" where
  "new_prefix prefix is_last_entry = snprintf PATH_MAX (prefix @ indent_unit is_last_entry)"

text \<open>
  The number of characters of a UTF-8 text: every byte that is not a
  continuation byte \<open>10xxxxxx\<close> starts one.
\<close>

definition utf8_length :: "string \<Rightarrow> nat" where
  "utf8_length txt = length (filter (\<lambda>c. (of_char c :: nat) div 64 \<noteq> 2) txt)"

subsection \<open>Phase 1: reading the entries\<close>

text \<open>
  The clean-up of the two failure branches inside the loop: every name stored
  so far is freed, then the array, then the directory stream is closed.
\<close>

definition free_names :: "DirEntry list \<Rightarrow> state \<Rightarrow> state" where
  "free_names entries s = fold (\<lambda>e. free (Name_copy (name e))) entries s"

definition cleanup :: "DirEntry list \<Rightarrow> string \<Rightarrow> state \<Rightarrow> state" where
  "cleanup entries path s = closedir path (free Entries_array (free_names entries s))"

text \<open>
  The \<^verbatim>\<open>while ((entry = readdir(dir)) != NULL)\<close> loop. Its arguments are the
  names \<^verbatim>\<open>readdir\<close> has yet to return, the entries stored so far
  (\<^verbatim>\<open>entries[0]\<close> to \<^verbatim>\<open>entries[num_entries - 1]\<close>, so \<^verbatim>\<open>num_entries\<close> is the
  length of the list) and \<^verbatim>\<open>capacity\<close>. The result is \<open>None\<close> when an allocation
  failed and the function has to return, and otherwise the entries and the
  capacity at the end of the loop. The counters are \<^verbatim>\<open>int\<close> in the source and
  natural numbers here: \<^verbatim>\<open>capacity *= 2\<close> stays below \<open>2^31\<close> for every directory
  of fewer than \<open>10 * 2^27\<close> entries.
\<close>

fun readdir_loop ::
  "env \<Rightarrow> string \<Rightarrow> string list \<Rightarrow> DirEntry list \<Rightarrow> nat \<Rightarrow> state
     \<Rightarrow> (DirEntry list \<times> nat) option \<times> state" where
  "readdir_loop env path [] entries capacity s = (Some (entries, capacity), s)"
| "readdir_loop env path (d_name # rest) entries capacity s =
     (if d_name = ''.'' \<or> d_name = ''..''
      then readdir_loop env path rest entries capacity s
      else case fs_stat env (full_path path d_name) of
        None \<Rightarrow> readdir_loop env path rest entries capacity (perror ''Error getting file status'' s)
      | Some dir \<Rightarrow>
          (case (if length entries \<ge> capacity
                 then (case realloc env s of
                         (True, s1) \<Rightarrow> (Some (capacity * 2), s1)
                       | (False, s1) \<Rightarrow>
                           (None, cleanup entries path
                              (perror ''Error: Memory reallocation failed for entries array'' s1)))
                 else (Some capacity, s)) of
             (None, s2) \<Rightarrow> (None, s2)
           | (Some capacity', s2) \<Rightarrow>
               (case alloc env (Name_copy d_name) s2 of
                  (False, s3) \<Rightarrow>
                    (None, cleanup entries path
                       (perror ''Error: Memory allocation failed for entry name'' s3))
                | (True, s3) \<Rightarrow>
                    readdir_loop env path rest
                      (entries @ [\<lparr>name = d_name, is_dir = dir\<rparr>]) capacity' s3)))"

text \<open>
  Phase 1 as a whole, from the \<^verbatim>\<open>malloc\<close> of the array (\<^verbatim>\<open>capacity = 10\<close>,
  \<^verbatim>\<open>num_entries = 0\<close>) to the \<^verbatim>\<open>closedir\<close> after the loop. The result is \<open>None\<close>
  on the three paths where an allocation fails and the function returns at once.
\<close>

definition read_entries ::
  "env \<Rightarrow> string \<Rightarrow> string list \<Rightarrow> state \<Rightarrow> DirEntry list option \<times> state" where
  "read_entries env path names s =
     (case alloc env Entries_array s of
        (False, s1) \<Rightarrow>
          (None, closedir path (perror ''Error: Memory allocation failed for entries array'' s1))
      | (True, s1) \<Rightarrow>
          (case readdir_loop env path names [] 10 s1 of
             (None, s2) \<Rightarrow> (None, s2)
           | (Some (entries, capacity), s2) \<Rightarrow> (Some entries, closedir path s2)))"

subsection \<open>The recursive listing\<close>

text \<open>
  \<open>list_directory_recursive\<close> and the \<^verbatim>\<open>for\<close> loop of its phase 3,
  \<open>print_entries\<close>, which runs over the sorted entries that are left; the entry
  at hand is the last one (\<^verbatim>\<open>i == num_entries - 1\<close>) when none is left after it.
  A directory tree can be arbitrarily deep, and with a link that leads back
  into it the recursion never ends, so the model counts the nesting of calls
  down from \<open>fuel\<close>: the result \<open>None\<close> says that the calls nest deeper than
  that. \<^verbatim>\<open>indent_level\<close> is handed down and never read.
\<close>

fun list_directory_recursive ::
  "nat \<Rightarrow> env \<Rightarrow> string \<Rightarrow> nat \<Rightarrow> string \<Rightarrow> state \<Rightarrow> state option"
and print_entries ::
  "nat \<Rightarrow> env \<Rightarrow> string \<Rightarrow> nat \<Rightarrow> string \<Rightarrow> DirEntry list \<Rightarrow> state \<Rightarrow> state option"
where
  "list_directory_recursive 0 env path indent_level prefix s = None"
| "list_directory_recursive (Suc fuel) env path indent_level prefix s =
     (case fs_opendir env path of
        None \<Rightarrow>
          Some (fprintf_stderr
                  (''Error: Cannot open directory '' @ [CHR 0x27] @ path @ [CHR 0x27, CHR 0x0A]) s)
      | Some names \<Rightarrow>
          (case read_entries env path names (opened path s) of
             (None, s1) \<Rightarrow> Some s1
           | (Some entries, s1) \<Rightarrow>
               print_entries fuel env path indent_level prefix
                 (qsort compareDirEntries entries) s1))"
| "print_entries fuel env path indent_level prefix [] s = Some (free Entries_array s)"
| "print_entries fuel env path indent_level prefix (current_entry # rest) s =
     (let is_last_entry = (rest = []);
          s1 = printf (name current_entry @ [CHR 0x0A])
                 (printf (connector is_last_entry) (printf prefix s))
      in case (if is_dir current_entry
               then list_directory_recursive fuel env (full_path path (name current_entry))
                      (indent_level + 1) (new_prefix prefix is_last_entry) s1
               else Some s1) of
           None \<Rightarrow> None
         | Some s2 \<Rightarrow>
             print_entries fuel env path indent_level prefix rest
               (free (Name_copy (name current_entry)) s2))"

subsection \<open>The program\<close>

definition initial_state :: state where
  "initial_state = \<lparr>out = [], err = [], nalloc = 0, heap = {#}\<rparr>"

text \<open>
  \<open>main\<close> takes the argument vector, \<^verbatim>\<open>argc\<close> being its length, and returns the
  exit status with the final state. \<open>start_path\<close> is the value of the variable
  of that name when the listing starts.
\<close>

definition start_path :: "string list \<Rightarrow> string" where
  "start_path argv = (if length argv = 2 then argv ! 1 else ''.'')"

definition main :: "nat \<Rightarrow> env \<Rightarrow> string list \<Rightarrow> (int \<times> state) option" where
  "main fuel env argv =
     (if length argv > 2
      then Some (1, fprintf_stderr
                      (''Usage: '' @ argv ! 0 @ '' [directory_path]'' @ [CHR 0x0A]) initial_state)
      else case list_directory_recursive fuel env (start_path argv) 0 []
                  (printf (start_path argv @ [CHR 0x0A]) initial_state) of
             None \<Rightarrow> None
           | Some s \<Rightarrow> Some (0, s))"

subsection \<open>The text of one level\<close>

text \<open>
  The properties below describe what a call writes to the standard output.
  \<open>level_text prefix entries subs\<close> is the text of one directory level: for
  each entry in turn its line (the prefix, the connector, the name and a
  newline) and after it the text \<open>subs ! i\<close> written below that entry.
\<close>

definition level_text :: "string \<Rightarrow> DirEntry list \<Rightarrow> string list \<Rightarrow> string" where
  "level_text prefix entries subs =
     concat (map (\<lambda>i. prefix @ connector (i = length entries - 1) @ name (entries ! i) @ [CHR 0x0A] @ subs ! i)
               [0..<length entries])"

text \<open>
  \<open>prefix_at_depth d prefix\<close>: the prefix fits the buffer, and as long as
  \<open>6 * d\<close> bytes fit as well it is \<open>4 * d\<close> characters long. \<open>indented d prefix txt\<close>
  says that \<open>txt\<close> is the text of a level whose lines start with \<open>prefix\<close>,
  that the text below the entry \<open>i\<close> is in turn indented with
  \<open>new_prefix prefix (i = length entries - 1)\<close> at depth \<open>d + 1\<close>, and that at
  every level the prefix is as \<open>prefix_at_depth\<close> says.
\<close>

definition prefix_at_depth :: "nat \<Rightarrow> string \<Rightarrow> bool" where
  "prefix_at_depth d prefix \<longleftrightarrow>
     length prefix < PATH_MAX \<and>
     (6 * d < PATH_MAX \<longrightarrow> utf8_length prefix = 4 * d \<and> length prefix \<le> 6 * d)"

inductive indented :: "nat \<Rightarrow> string \<Rightarrow> string \<Rightarrow> bool" where
  "length subs = length entries \<Longrightarrow> prefix_at_depth d prefix \<Longrightarrow>
   (\<forall>i<length entries. indented (Suc d) (new_prefix prefix (i = length entries - 1)) (subs ! i)) \<Longrightarrow>
   indented d prefix (level_text prefix entries subs)"

text \<open>
  The calls of a run. \<open>call_indented fuel env path d prefix s s'\<close> says that the
  call of \<open>list_directory_recursive\<close> with the level \<open>d\<close> and the prefix
  \<open>prefix\<close>, started in the state \<open>s\<close>, returns the state \<open>s'\<close>, that its prefix
  is as \<open>prefix_at_depth d\<close> says, and that the same holds of every call made
  below it: for a directory entry \<open>e\<close> with the entries \<open>rest\<close> after it, the
  call is made on \<open>full_path path (name e)\<close> at the level \<open>d + 1\<close> with the
  prefix \<open>new_prefix prefix (rest = [])\<close>, from the state in which the line of
  \<open>e\<close> has just been written, and the loop goes on from the state that call
  returns. \<open>loop_indented\<close> is the same for the loop over the sorted entries.
\<close>

inductive call_indented ::
  "nat \<Rightarrow> env \<Rightarrow> string \<Rightarrow> nat \<Rightarrow> string \<Rightarrow> state \<Rightarrow> state \<Rightarrow> bool"
and loop_indented ::
  "nat \<Rightarrow> env \<Rightarrow> string \<Rightarrow> nat \<Rightarrow> string \<Rightarrow> DirEntry list \<Rightarrow> state \<Rightarrow> state \<Rightarrow> bool"
where
  not_listed:
    "list_directory_recursive (Suc fuel) env path d prefix s = Some s' \<Longrightarrow>
     prefix_at_depth d prefix \<Longrightarrow>
     fs_opendir env path = None
       \<or> (\<exists>names. fs_opendir env path = Some names
             \<and> fst (read_entries env path names (opened path s)) = None) \<Longrightarrow>
     call_indented (Suc fuel) env path d prefix s s'"
| listed:
    "list_directory_recursive (Suc fuel) env path d prefix s = Some s' \<Longrightarrow>
     prefix_at_depth d prefix \<Longrightarrow>
     fs_opendir env path = Some names \<Longrightarrow>
     read_entries env path names (opened path s) = (Some entries, s1) \<Longrightarrow>
     loop_indented fuel env path d prefix (qsort compareDirEntries entries) s1 s' \<Longrightarrow>
     call_indented (Suc fuel) env path d prefix s s'"
| no_entry_left:
    "print_entries fuel env path d prefix [] s = Some s' \<Longrightarrow>
     loop_indented fuel env path d prefix [] s s'"
| file_entry:
    "print_entries fuel env path d prefix (e # rest) s = Some s' \<Longrightarrow>
     \<not> is_dir e \<Longrightarrow>
     loop_indented fuel env path d prefix rest
       (free (Name_copy (name e))
          (s\<lparr>out := out s @ prefix @ connector (rest = []) @ name e @ [CHR 0x0A]\<rparr>)) s' \<Longrightarrow>
     loop_indented fuel env path d prefix (e # rest) s s'"
| directory_entry:
    "print_entries fuel env path d prefix (e # rest) s = Some s' \<Longrightarrow>
     is_dir e \<Longrightarrow>
     call_indented fuel env (full_path path (name e)) (d + 1) (new_prefix prefix (rest = []))
       (s\<lparr>out := out s @ prefix @ connector (rest = []) @ name e @ [CHR 0x0A]\<rparr>) s2 \<Longrightarrow>
     loop_indented fuel env path d prefix rest (free (Name_copy (name e)) s2) s' \<Longrightarrow>
     loop_indented fuel env path d prefix (e # rest) s s'"

code_pred call_indented .

subsection \<open>The entries of a directory\<close>

text \<open>
  Of the names \<^verbatim>\<open>readdir\<close> returns: the children (every name but \<^verbatim>\<open>.\<close> and
  \<^verbatim>\<open>..\<close>), the children whose \<^verbatim>\<open>stat\<close> fails, and the entries made of the
  others, in the order of the names. \<open>held_names\<close> are the copies of the names
  that a list of entries holds.
\<close>

definition children :: "string list \<Rightarrow> string list" where
  "children names = filter (\<lambda>d_name. d_name \<noteq> ''.'' \<and> d_name \<noteq> ''..'') names"

definition stat_failed :: "env \<Rightarrow> string \<Rightarrow> string list \<Rightarrow> string list" where
  "stat_failed env path names =
     filter (\<lambda>d_name. fs_stat env (full_path path d_name) = None) (children names)"

definition listed_entries :: "env \<Rightarrow> string \<Rightarrow> string list \<Rightarrow> DirEntry list" where
  "listed_entries env path names =
     concat (map (\<lambda>d_name. case fs_stat env (full_path path d_name) of
                               None \<Rightarrow> []
                             | Some dir \<Rightarrow> [\<lparr>name = d_name, is_dir = dir\<rparr>])
               (children names))"

definition held_names :: "DirEntry list \<Rightarrow> resource multiset" where
  "held_names entries = mset (map (\<lambda>e. Name_copy (name e)) entries)"

subsection \<open>Messages, and directories that nest to a bounded depth\<close>

text \<open>
  The two messages written with \<^verbatim>\<open>fprintf(stderr, ...)\<close>.
  \<open>subdirs env path\<close> are the paths the listing of \<open>path\<close> can recurse into, and \<open>nested_below env n path\<close> says that the directories
  reached from \<open>path\<close> nest fewer than \<open>n\<close> levels deep.
\<close>

definition cannot_open :: "string \<Rightarrow> diag" where
  "cannot_open path = Fprintf (''Error: Cannot open directory '' @ [CHR 0x27] @ path @ [CHR 0x27, CHR 0x0A])"

definition usage :: "string \<Rightarrow> diag" where
  "usage prog = Fprintf (''Usage: '' @ prog @ '' [directory_path]'' @ [CHR 0x0A])"

definition subdirs :: "env \<Rightarrow> string \<Rightarrow> string list" where
  "subdirs env path =
     (case fs_opendir env path of
        None \<Rightarrow> []
      | Some names \<Rightarrow>
          map (\<lambda>d_name. full_path path d_name)
            (filter (\<lambda>d_name. fs_stat env (full_path path d_name) = Some True) (children names)))"

fun nested_below :: "env \<Rightarrow> nat \<Rightarrow> string \<Rightarrow> bool" where
  "nested_below env 0 path = False"
| "nested_below env (Suc n) path = (\<forall>p \<in> set (subdirs env path). nested_below env n p)"

subsection \<open>Example runs\<close>

text \<open>
  A directory \<^verbatim>\<open>.\<close> that holds the directory \<^verbatim>\<open>dir1\<close> with the file
  \<^verbatim>\<open>file1.txt\<close> in it, and the file \<^verbatim>\<open>file2.txt\<close>. And a chain of directories
  \<^verbatim>\<open>./d/d/.../d\<close>, 1024 levels below \<^verbatim>\<open>.\<close>, each holding the next and the
  last one holding the file \<^verbatim>\<open>f\<close>; its longest path takes 2051 bytes.
  \<open>chain_line k\<close> is the line of the directory \<^verbatim>\<open>d\<close> at depth \<open>k\<close> when its
  prefix is \<open>4 * k\<close> spaces.
\<close>

definition envB :: env where
  "envB = \<lparr>fs_opendir = (\<lambda>p. if p = ''.'' then Some [''file2.txt'', ''.'', ''dir1'', ''..'']
                              else if p = ''./dir1'' then Some [''..'', ''file1.txt'', ''.''] else None),
           fs_stat = (\<lambda>p. if p = ''./dir1'' then Some True
                           else if p = ''./file2.txt'' \<or> p = ''./dir1/file1.txt'' then Some False else None),
           alloc_ok = (\<lambda>k. True)\<rparr>"

definition outB :: string where
  "outB = connector False @ ''dir1'' @ [CHR 0x0A]
          @ indent_unit False @ connector True @ ''file1.txt'' @ [CHR 0x0A]
          @ connector True @ ''file2.txt'' @ [CHR 0x0A]"

definition chain :: "nat \<Rightarrow> string" where
  "chain k = CHR ''.'' # concat (replicate k ''/d'')"

definition env_chain :: env where
  "env_chain = \<lparr>fs_opendir = (\<lambda>p. if p \<in> set (map chain [0..<1024]) then Some [''.'', ''..'', ''d'']
                                  else if p = chain 1024 then Some [''.'', ''..'', ''f'']
                                  else None),
                fs_stat = (\<lambda>p. if p \<in> set (map chain [1..<1025]) then Some True
                                else if p = chain 1024 @ ''/f'' then Some False
                                else None),
                alloc_ok = (\<lambda>k. True)\<rparr>"

definition chain_line :: "nat \<Rightarrow> string" where
  "chain_line k = replicate (4 * k) CHR '' '' @ connector True @ ''d'' @ [CHR 0x0A]"

text \<open>The entries of the first example as they are read, and as they are sorted.\<close>

definition entriesB :: "DirEntry list" where
  "entriesB = [\<lparr>name = ''dir1'', is_dir = True\<rparr>, \<lparr>name = ''file2.txt'', is_dir = False\<rparr>]"

definition readB :: "DirEntry list" where
  "readB = [\<lparr>name = ''file2.txt'', is_dir = False\<rparr>, \<lparr>name = ''dir1'', is_dir = True\<rparr>]"

text \<open>
  A directory with a child whose \<^verbatim>\<open>stat\<close> fails; a directory with a subdirectory
  that cannot be opened; a directory with eleven files; and a run in which the
  sixth allocation request fails, while the second name of the directory
  \<^verbatim>\<open>d\<close> is copied.
\<close>

definition env_status :: env where
  "env_status = \<lparr>fs_opendir = (\<lambda>p. if p = ''.'' then Some [''.'', ''..'', ''b.txt'', ''gone'', ''a'']
                                   else if p = ''./a'' then Some [''.'', ''..''] else None),
                 fs_stat = (\<lambda>p. if p = ''./a'' then Some True
                                 else if p = ''./b.txt'' then Some False else None),
                 alloc_ok = (\<lambda>k. True)\<rparr>"


definition out_status :: string where
  "out_status = connector False @ ''a'' @ [CHR 0x0A] @ connector True @ ''b.txt'' @ [CHR 0x0A]"

definition env_secret :: env where
  "env_secret = \<lparr>fs_opendir = (\<lambda>p. if p = ''.'' then Some [''.'', ''..'', ''z.txt'', ''secret''] else None),
                 fs_stat = (\<lambda>p. if p = ''./secret'' then Some True
                                 else if p = ''./z.txt'' then Some False else None),
                 alloc_ok = (\<lambda>k. True)\<rparr>"

definition entries_secret :: "DirEntry list" where
  "entries_secret = [\<lparr>name = ''secret'', is_dir = True\<rparr>, \<lparr>name = ''z.txt'', is_dir = False\<rparr>]"

definition names_eleven :: "string list" where
  "names_eleven = [''.'', ''a'', ''b'', ''c'', ''d'', ''e'', ''f'', ''g'', ''h'', ''i'', ''j'', ''..'', ''k'']"

definition env_files :: env where
  "env_files = \<lparr>fs_opendir = (\<lambda>p. if p = ''.'' then Some names_eleven else None),
                fs_stat = (\<lambda>p. Some False),
                alloc_ok = (\<lambda>k. True)\<rparr>"


definition entries_eleven :: "DirEntry list" where
  "entries_eleven = map (\<lambda>d_name. \<lparr>name = d_name, is_dir = False\<rparr>)
                      [''a'', ''b'', ''c'', ''d'', ''e'', ''f'', ''g'', ''h'', ''i'', ''j'', ''k'']"





text \<open>
  A directory whose path is 4094 bytes long and which holds one entry: the
  joined path of the entry is cut back to the path of the directory itself
  with a slash at its end.
\<close>

definition loop_root :: string where
  "loop_root = concat (replicate 2047 ''/r'')"

definition env_loop :: env where
  "env_loop = \<lparr>fs_opendir = (\<lambda>p. if p = loop_root \<or> p = loop_root @ ''/'' then Some [''.'', ''..'', ''x'']
                                 else None),
               fs_stat = (\<lambda>p. if p = loop_root @ ''/'' then Some True else None),
               alloc_ok = (\<lambda>k. True)\<rparr>"

section \<open>Properties\<close>

subsection \<open>The comparison function and the sort\<close>

lemma trans_byte_less: "trans byte_less"
  by (auto simp: byte_less_def trans_def)

lemma byte_less_irrefl: "(c, c) \<notin> byte_less"
  by (simp add: byte_less_def)

lemma byte_less_total: "(c, d) \<in> byte_less \<or> c = d \<or> (d, c) \<in> byte_less"
proof -
  have "(of_char c :: nat) < of_char d \<or> (of_char c :: nat) = of_char d \<or> (of_char d :: nat) < of_char c"
    by arith
  then show ?thesis by (auto simp: byte_less_def)
qed

lemma strcmp_range: "strcmp a b = - 1 \<or> strcmp a b = 0 \<or> strcmp a b = 1"
  by (induction a b rule: strcmp.induct) auto

lemma strcmp_eq_0: "strcmp a b = 0 \<longleftrightarrow> a = b"
  by (induction a b rule: strcmp.induct) auto

lemma strcmp_less: "strcmp a b < 0 \<longleftrightarrow> (a, b) \<in> lexord byte_less"
  by (induction a b rule: strcmp.induct) (auto simp: byte_less_def)

lemma strcmp_greater: "strcmp a b > 0 \<longleftrightarrow> (b, a) \<in> lexord byte_less"
  by (induction a b rule: strcmp.induct) (auto simp: byte_less_def not_less le_less)

lemma strcmp_le: "strcmp a b \<le> 0 \<longleftrightarrow> a = b \<or> (a, b) \<in> lexord byte_less"
  using strcmp_less [of a b] strcmp_eq_0 [of a b] by auto

lemma compare_le_iff: "compareDirEntries a b \<le> 0 \<longleftrightarrow> entry_before a b"
  by (auto simp: compareDirEntries_def entry_before_def strcmp_le)

lemma lexord_byte_trans:
  "(a, b) \<in> lexord byte_less \<Longrightarrow> (b, c) \<in> lexord byte_less \<Longrightarrow> (a, c) \<in> lexord byte_less"
  by (rule lexord_trans) (auto intro: trans_byte_less)

lemma lexord_byte_irrefl: "(a, a) \<notin> lexord byte_less"
  by (rule lexord_irreflexive) (simp add: byte_less_irrefl)

lemma lexord_byte_total: "(a, b) \<in> lexord byte_less \<or> a = b \<or> (b, a) \<in> lexord byte_less"
  by (rule lexord_linear) (use byte_less_total in blast)

lemma entry_before_trans: "entry_before a b \<Longrightarrow> entry_before b c \<Longrightarrow> entry_before a c"
  unfolding entry_before_def using lexord_byte_trans by metis

lemma entry_before_total: "entry_before a b \<or> entry_before b a"
  unfolding entry_before_def using lexord_byte_total [of "name a" "name b"] by auto

lemma entry_before_antisym: "entry_before a b \<Longrightarrow> entry_before b a \<Longrightarrow> a = b"
proof -
  assume ab: "entry_before a b" and ba: "entry_before b a"
  then have k: "is_dir a = is_dir b" by (auto simp: entry_before_def)
  have "name a = name b"
  proof (rule ccontr)
    assume "name a \<noteq> name b"
    with ab ba k have "(name a, name b) \<in> lexord byte_less" "(name b, name a) \<in> lexord byte_less"
      by (auto simp: entry_before_def)
    then have "(name a, name a) \<in> lexord byte_less" by (rule lexord_byte_trans)
    then show False by (simp add: lexord_byte_irrefl)
  qed
  with k show ?thesis by simp
qed

lemma mset_qsort_insert: "mset (qsort_insert compar e xs) = add_mset e (mset xs)"
  by (induction xs) auto

lemma mset_qsort: "mset (qsort compar xs) = mset xs"
  by (induction xs) (auto simp: qsort_def mset_qsort_insert)

lemma set_qsort_insert: "set (qsort_insert compar e xs) = insert e (set xs)"
  by (induction xs) auto

lemma set_qsort: "set (qsort compar xs) = set xs"
  by (metis mset_qsort set_mset_mset)

lemma length_qsort: "length (qsort compar xs) = length xs"
  by (metis mset_qsort size_mset)

lemma sorted_qsort_insert:
  "sorted_wrt entry_before xs \<Longrightarrow> sorted_wrt entry_before (qsort_insert compareDirEntries e xs)"
proof (induction xs)
  case Nil
  then show ?case by simp
next
  case (Cons x xs)
  show ?case
  proof (cases "compareDirEntries e x \<le> 0")
    case True
    then have "entry_before e x" by (simp add: compare_le_iff)
    with Cons.prems have "\<forall>y\<in>set (x # xs). entry_before e y"
      by (auto intro: entry_before_trans)
    with Cons.prems True show ?thesis by simp
  next
    case False
    then have "entry_before x e"
      using entry_before_total [of e x] by (simp add: compare_le_iff)
    with Cons False show ?thesis by (auto simp: set_qsort_insert)
  qed
qed

lemma sorted_qsort: "sorted_wrt entry_before (qsort compareDirEntries xs)"
  by (induction xs) (auto simp: qsort_def sorted_qsort_insert)

lemma sorted_entries_unique:
  "sorted_wrt entry_before ys \<Longrightarrow> sorted_wrt entry_before zs \<Longrightarrow> mset ys = mset zs \<Longrightarrow> ys = zs"
proof (induction ys arbitrary: zs)
  case Nil
  then show ?case by simp
next
  case (Cons y ys)
  then obtain z zs' where zs: "zs = z # zs'" by (cases zs) auto
  have "y \<in> set zs" using Cons.prems(3) by (metis list.set_intros(1) set_mset_mset)
  then have zy: "entry_before z y \<or> z = y" using Cons.prems(2) zs by auto
  have "z \<in> set (y # ys)" using Cons.prems(3) zs by (metis list.set_intros(1) set_mset_mset)
  then have yz: "entry_before y z \<or> y = z" using Cons.prems(1) by auto
  from zy yz have eq: "y = z" by (auto dest: entry_before_antisym)
  with Cons.prems zs have "ys = zs'" by (intro Cons.IH) auto
  with eq zs show ?case by simp
qed

lemma qsort_unique:
  "sorted_wrt entry_before ys \<Longrightarrow> mset ys = mset xs \<Longrightarrow> ys = qsort compareDirEntries xs"
  by (rule sorted_entries_unique) (simp_all add: sorted_qsort mset_qsort)

text \<open>
  Claim C1. The sorted listing has every directory before every file and,
  within one kind, the names in the lexicographic order of their bytes; it is a
  rearrangement of the entries read. This order is the one
  \<open>compareDirEntries\<close> decides: whenever exactly one of two entries is a
  directory it answers from the kinds alone, whatever the names are, and for
  two entries of one kind it answers with \<open>strcmp\<close> of the names, which
  compares byte by byte.
\<close>

theorem sort_directories_first_then_bytewise:
  "sorted_wrt entry_before (qsort compareDirEntries entries)
   \<and> mset (qsort compareDirEntries entries) = mset entries
   \<and> (compareDirEntries a b \<le> 0 \<longleftrightarrow> entry_before a b)
   \<and> compareDirEntries \<lparr>name = x, is_dir = True\<rparr> \<lparr>name = y, is_dir = False\<rparr> = - 1
   \<and> compareDirEntries \<lparr>name = y, is_dir = False\<rparr> \<lparr>name = x, is_dir = True\<rparr> = 1
   \<and> compareDirEntries \<lparr>name = x, is_dir = k\<rparr> \<lparr>name = y, is_dir = k\<rparr> = strcmp x y
   \<and> (strcmp x y < 0 \<longleftrightarrow> (x, y) \<in> lexord byte_less)
   \<and> (strcmp x y = 0 \<longleftrightarrow> x = y)"
proof -
  have "compareDirEntries \<lparr>name = x, is_dir = k\<rparr> \<lparr>name = y, is_dir = k\<rparr> = strcmp x y"
    by (simp add: compareDirEntries_def)
  moreover have "compareDirEntries \<lparr>name = x, is_dir = True\<rparr> \<lparr>name = y, is_dir = False\<rparr> = - 1"
    "compareDirEntries \<lparr>name = y, is_dir = False\<rparr> \<lparr>name = x, is_dir = True\<rparr> = 1"
    by (simp_all add: compareDirEntries_def)
  ultimately show ?thesis
    using sorted_qsort [of entries] mset_qsort [of compareDirEntries entries]
      compare_le_iff [of a b] strcmp_less [of x y] strcmp_eq_0 [of x y]
    by blast
qed

theorem sort_directories_first_then_bytewise_witness:
  "qsort compareDirEntries
     [\<lparr>name = ''a'', is_dir = False\<rparr>, \<lparr>name = ''9'', is_dir = False\<rparr>, \<lparr>name = ''z'', is_dir = True\<rparr>,
      \<lparr>name = ''B'', is_dir = False\<rparr>, \<lparr>name = ''10'', is_dir = False\<rparr>]
   = [\<lparr>name = ''z'', is_dir = True\<rparr>, \<lparr>name = ''10'', is_dir = False\<rparr>, \<lparr>name = ''9'', is_dir = False\<rparr>,
      \<lparr>name = ''B'', is_dir = False\<rparr>, \<lparr>name = ''a'', is_dir = False\<rparr>]
   \<and> sorted_wrt entry_before
        [\<lparr>name = ''z'', is_dir = True\<rparr>, \<lparr>name = ''10'', is_dir = False\<rparr>, \<lparr>name = ''9'', is_dir = False\<rparr>,
         \<lparr>name = ''B'', is_dir = False\<rparr>, \<lparr>name = ''a'', is_dir = False\<rparr>]"
proof -
  have e: "qsort compareDirEntries
     [\<lparr>name = ''a'', is_dir = False\<rparr>, \<lparr>name = ''9'', is_dir = False\<rparr>, \<lparr>name = ''z'', is_dir = True\<rparr>,
      \<lparr>name = ''B'', is_dir = False\<rparr>, \<lparr>name = ''10'', is_dir = False\<rparr>]
   = [\<lparr>name = ''z'', is_dir = True\<rparr>, \<lparr>name = ''10'', is_dir = False\<rparr>, \<lparr>name = ''9'', is_dir = False\<rparr>,
      \<lparr>name = ''B'', is_dir = False\<rparr>, \<lparr>name = ''a'', is_dir = False\<rparr>]"
    by (simp add: qsort_def compareDirEntries_def)
  show ?thesis
    using sort_directories_first_then_bytewise [of "[\<lparr>name = ''a'', is_dir = False\<rparr>, \<lparr>name = ''9'', is_dir = False\<rparr>, \<lparr>name = ''z'', is_dir = True\<rparr>,
      \<lparr>name = ''B'', is_dir = False\<rparr>, \<lparr>name = ''10'', is_dir = False\<rparr>]"]
    unfolding e by simp
qed

subsection \<open>What a call writes to the standard output\<close>

lemma out_simps [simp]:
  "out (printf txt s) = out s @ txt"
  "out (fprintf_stderr txt s) = out s"
  "out (perror msg s) = out s"
  "out (free r s) = out s"
  "out (opened path s) = out s"
  "out (closedir path s) = out s"
  "out (snd (alloc env r s)) = out s"
  "out (snd (realloc env s)) = out s"
  by (simp_all add: printf_def fprintf_stderr_def perror_def free_def opened_def closedir_def alloc_def realloc_def)

lemma out_free_names [simp]: "out (free_names entries s) = out s"
  unfolding free_names_def by (induction entries arbitrary: s) simp_all

lemma out_cleanup [simp]: "out (cleanup entries path s) = out s"
  by (simp add: cleanup_def)

lemma out_alloc: "alloc env r s = (b, s1) \<Longrightarrow> out s1 = out s"
  by (auto simp: alloc_def split: if_splits)

lemma out_realloc: "realloc env s = (b, s1) \<Longrightarrow> out s1 = out s"
  by (auto simp: realloc_def)

lemma out_readdir_loop:
  "readdir_loop env path names entries capacity s = (r, s') \<Longrightarrow> out s' = out s"
proof (induction names arbitrary: entries capacity s)
  case Nil
  then show ?case by simp
next
  case (Cons d_name rest)
  then show ?case
    by (auto split: if_splits option.splits prod.splits bool.splits dest!: out_alloc out_realloc)
qed

lemma out_read_entries: "read_entries env path names s = (r, s') \<Longrightarrow> out s' = out s"
  by (auto simp: read_entries_def split: prod.splits bool.splits option.splits
      dest!: out_alloc out_readdir_loop)

lemma print_entries_ConsE:
  assumes "print_entries fuel env path lvl prefix (e # rest) s = Some s'"
  obtains s2 where
    "(if is_dir e
      then list_directory_recursive fuel env (full_path path (name e)) (lvl + 1)
             (new_prefix prefix (rest = []))
             (printf (name e @ [CHR 0x0A]) (printf (connector (rest = [])) (printf prefix s)))
      else Some (printf (name e @ [CHR 0x0A]) (printf (connector (rest = [])) (printf prefix s))))
     = Some s2"
    "print_entries fuel env path lvl prefix rest (free (Name_copy (name e)) s2) = Some s'"
  using assms by (auto simp: Let_def split: option.splits)

lemma list_directory_recursive_SucE:
  assumes "list_directory_recursive (Suc fuel) env path lvl prefix s = Some s'"
  obtains
    (open_failed) "fs_opendir env path = None"
      "s' = fprintf_stderr (''Error: Cannot open directory '' @ [CHR 0x27] @ path @ [CHR 0x27, CHR 0x0A]) s"
  | (alloc_failed) names where "fs_opendir env path = Some names"
      "read_entries env path names (opened path s) = (None, s')"
  | (listed) names entries s1 where "fs_opendir env path = Some names"
      "read_entries env path names (opened path s) = (Some entries, s1)"
      "print_entries fuel env path lvl prefix (qsort compareDirEntries entries) s1 = Some s'"
  using assms by (auto split: option.splits prod.splits)

lemma out_append:
  "list_directory_recursive fuel env path lvl prefix s = Some s' \<Longrightarrow> \<exists>t. out s' = out s @ t"
  "print_entries fuel env path lvl prefix entries s = Some s' \<Longrightarrow> \<exists>t. out s' = out s @ t"
proof (induction fuel env path lvl prefix s and fuel env path lvl prefix entries s
    arbitrary: s' and s' rule: list_directory_recursive_print_entries.induct)
  case (1 env path indent_level prefix s)
  then show ?case by simp
next
  case (2 fuel env path indent_level prefix s)
  from "2.prems" show ?case
  proof (cases rule: list_directory_recursive_SucE)
    case open_failed
    then show ?thesis by simp
  next
    case (alloc_failed names)
    then show ?thesis by (auto dest: out_read_entries)
  next
    case (listed names entries s1)
    from "2.IH" [OF listed(1) listed(2) [symmetric] refl listed(3)] out_read_entries [OF listed(2)]
    show ?thesis by simp
  qed
next
  case (3 fuel env path indent_level prefix s)
  then show ?case by auto
next
  case (4 fuel env path indent_level prefix current_entry rest s)
  from "4.prems" show ?case
  proof (cases rule: print_entries_ConsE)
    case (1 s2)
    have "\<exists>t. out s2 = out s @ prefix @ connector (rest = []) @ name current_entry @ [CHR 0x0A] @ t"
    proof (cases "is_dir current_entry")
      case True
      with 1(1) show ?thesis using "4.IH"(1) [OF refl refl True] by auto
    next
      case False
      with 1(1) show ?thesis by auto
    qed
    moreover have "\<exists>t. out s' = out (free (Name_copy (name current_entry)) s2) @ t"
      using "4.IH"(2) [OF refl refl _ 1(2)] 1(1) by simp
    ultimately show ?thesis by auto
  qed
qed

lemma level_text_Nil [simp]: "level_text prefix [] subs = []"
  by (simp add: level_text_def)

lemma level_text_Cons:
  "level_text prefix (e # rest) (t # subs) =
     prefix @ connector (rest = []) @ name e @ [CHR 0x0A] @ t @ level_text prefix rest subs"
proof -
  have idx: "[0..<length (e # rest)] = 0 # map Suc [0..<length rest]"
    by (simp add: upt_conv_Cons map_Suc_upt del: upt_Suc)
  have tl: "map (\<lambda>i. prefix @ connector (i = length (e # rest) - 1) @ name ((e # rest) ! i) @ [CHR 0x0A] @ (t # subs) ! i)
              (map Suc [0..<length rest])
          = map (\<lambda>i. prefix @ connector (i = length rest - 1) @ name (rest ! i) @ [CHR 0x0A] @ subs ! i)
              [0..<length rest]"
  proof -
    have "(Suc i = length rest) = (i = length rest - 1)" if "i < length rest" for i
      using that by auto
    then show ?thesis by simp
  qed
  have hd: "(0 = length (e # rest) - 1) = (rest = [])"
    by auto
  show ?thesis
    unfolding level_text_def idx list.map concat.simps tl hd by simp
qed

lemma print_entries_text:
  assumes "print_entries fuel env path lvl prefix entries s = Some s'"
  shows "\<exists>subs. length subs = length entries
           \<and> out s' = out s @ level_text prefix entries subs
           \<and> (\<forall>i<length entries.
                 if is_dir (entries ! i)
                 then \<exists>t t'. list_directory_recursive fuel env (full_path path (name (entries ! i)))
                                (lvl + 1) (new_prefix prefix (i = length entries - 1)) t = Some t'
                              \<and> out t' = out t @ subs ! i
                 else subs ! i = [])"
  using assms
proof (induction entries arbitrary: s)
  case Nil
  then show ?case by auto
next
  case (Cons e rest)
  from Cons.prems show ?case
  proof (cases rule: print_entries_ConsE)
    case (1 s2)
    let ?s1 = "printf (name e @ [CHR 0x0A]) (printf (connector (rest = [])) (printf prefix s))"
    obtain t0 where t0: "out s2 = out ?s1 @ t0"
      and sub: "if is_dir e
                then \<exists>t t'. list_directory_recursive fuel env (full_path path (name e)) (lvl + 1)
                              (new_prefix prefix (rest = [])) t = Some t' \<and> out t' = out t @ t0
                else t0 = []"
    proof (cases "is_dir e")
      case True
      with 1(1) have call: "list_directory_recursive fuel env (full_path path (name e)) (lvl + 1)
                              (new_prefix prefix (rest = [])) ?s1 = Some s2"
        by simp
      then obtain t0 where "out s2 = out ?s1 @ t0" by (auto dest: out_append(1))
      with call True that show ?thesis by metis
    next
      case False
      with 1(1) that [of "[]"] show ?thesis by simp
    qed
    from Cons.IH [OF 1(2)] obtain subs where
      len: "length subs = length rest"
      and outeq: "out s' = out (free (Name_copy (name e)) s2) @ level_text prefix rest subs"
      and calls: "\<forall>i<length rest.
                 if is_dir (rest ! i)
                 then \<exists>t t'. list_directory_recursive fuel env (full_path path (name (rest ! i)))
                                (lvl + 1) (new_prefix prefix (i = length rest - 1)) t = Some t'
                              \<and> out t' = out t @ subs ! i
                 else subs ! i = []"
      by blast
    have "length (t0 # subs) = length (e # rest)" using len by simp
    moreover have "out s' = out s @ level_text prefix (e # rest) (t0 # subs)"
      using outeq t0 by (simp add: level_text_Cons)
    moreover have "\<forall>i<length (e # rest).
                 if is_dir ((e # rest) ! i)
                 then \<exists>t t'. list_directory_recursive fuel env (full_path path (name ((e # rest) ! i)))
                                (lvl + 1) (new_prefix prefix (i = length (e # rest) - 1)) t = Some t'
                              \<and> out t' = out t @ (t0 # subs) ! i
                 else (t0 # subs) ! i = []"
    proof (intro allI impI)
      fix i assume i: "i < length (e # rest)"
      show "if is_dir ((e # rest) ! i)
                 then \<exists>t t'. list_directory_recursive fuel env (full_path path (name ((e # rest) ! i)))
                                (lvl + 1) (new_prefix prefix (i = length (e # rest) - 1)) t = Some t'
                              \<and> out t' = out t @ (t0 # subs) ! i
                 else (t0 # subs) ! i = []"
      proof (cases i)
        case 0
        have "(0 = length (e # rest) - 1) = (rest = [])" by auto
        with sub 0 show ?thesis by (auto split: if_splits)
      next
        case (Suc j)
        with i have j: "j < length rest" by simp
        then have "(Suc j = length (e # rest) - 1) = (j = length rest - 1)" by auto
        with calls [rule_format, OF j] Suc show ?thesis by (auto split: if_splits)
      qed
    qed
    ultimately show ?thesis by blast
  qed
qed

lemmas run_defs = initial_state_def alloc_def realloc_def opened_def snprintf_def full_path_def
      perror_def fprintf_stderr_def closedir_def free_def qsort_def compareDirEntries_def printf_def
      new_prefix_def read_entries_def cleanup_def free_names_def

lemma run_B:
  "list_directory_recursive 2 envB ''.'' 0 [] initial_state
     = Some \<lparr>out = outB, err = [], nalloc = 5, heap = {#}\<rparr>"
  by (simp add: envB_def outB_def run_defs PATH_MAX_def connector_def indent_unit_def numeral_2_eq_2)

lemma new_prefix_fits:
  "length prefix + length (indent_unit b) < PATH_MAX \<Longrightarrow> new_prefix prefix b = prefix @ indent_unit b"
  by (simp add: new_prefix_def snprintf_def)

lemma length_new_prefix: "length (new_prefix prefix b) < PATH_MAX"
  by (simp add: new_prefix_def snprintf_def PATH_MAX_def)

lemma utf8_length_append [simp]: "utf8_length (a @ b) = utf8_length a + utf8_length b"
  by (simp add: utf8_length_def)

lemma utf8_length_indent_unit [simp]: "utf8_length (indent_unit b) = 4"
  by (simp add: utf8_length_def indent_unit_def)

lemma length_indent_unit: "length (indent_unit b) \<le> 6"
  by (simp add: indent_unit_def)

lemma prefix_at_depth_0: "prefix_at_depth 0 []"
  by (simp add: prefix_at_depth_def PATH_MAX_def utf8_length_def)

lemma prefix_at_depth_Suc:
  assumes "prefix_at_depth d prefix"
  shows "prefix_at_depth (Suc d) (new_prefix prefix b)"
proof -
  have "utf8_length (new_prefix prefix b) = 4 * Suc d \<and> length (new_prefix prefix b) \<le> 6 * Suc d"
    if deep: "6 * Suc d < PATH_MAX"
  proof -
    from deep assms have u: "utf8_length prefix = 4 * d" and l: "length prefix \<le> 6 * d"
      by (simp_all add: prefix_at_depth_def)
    from l deep length_indent_unit [of b] have "length prefix + length (indent_unit b) < PATH_MAX"
      by simp
    then have "new_prefix prefix b = prefix @ indent_unit b" by (rule new_prefix_fits)
    with u l length_indent_unit [of b] show ?thesis by simp
  qed
  then show ?thesis by (simp add: prefix_at_depth_def length_new_prefix)
qed

lemma indented_empty: "prefix_at_depth d prefix \<Longrightarrow> indented d prefix []"
  using indented.intros [of "[]" "[]" d prefix] by simp

lemma list_directory_recursive_indented:
  "list_directory_recursive fuel env path d prefix s = Some s' \<Longrightarrow> prefix_at_depth d prefix \<Longrightarrow>
   \<exists>t. out s' = out s @ t \<and> indented d prefix t"
proof (induction fuel arbitrary: path d prefix s s')
  case 0
  then show ?case by simp
next
  case (Suc fuel)
  from Suc.prems(1) show ?case
  proof (cases rule: list_directory_recursive_SucE)
    case open_failed
    with Suc.prems(2) show ?thesis by (simp add: indented_empty)
  next
    case (alloc_failed names)
    with Suc.prems(2) show ?thesis by (auto dest: out_read_entries simp: indented_empty)
  next
    case (listed names entries s1)
    let ?es = "qsort compareDirEntries entries"
    from print_entries_text [OF listed(3)] obtain subs where
      len: "length subs = length ?es"
      and outeq: "out s' = out s1 @ level_text prefix ?es subs"
      and calls: "\<forall>i<length ?es.
                 if is_dir (?es ! i)
                 then \<exists>t t'. list_directory_recursive fuel env (full_path path (name (?es ! i)))
                                (d + 1) (new_prefix prefix (i = length ?es - 1)) t = Some t'
                              \<and> out t' = out t @ subs ! i
                 else subs ! i = []"
      by blast
    have "indented (Suc d) (new_prefix prefix (i = length ?es - 1)) (subs ! i)" if i: "i < length ?es" for i
    proof (cases "is_dir (?es ! i)")
      case True
      with calls i obtain t t' where
        call: "list_directory_recursive fuel env (full_path path (name (?es ! i)))
                 (Suc d) (new_prefix prefix (i = length ?es - 1)) t = Some t'"
        and sub: "out t' = out t @ subs ! i"
        by (auto split: if_splits)
      from Suc.IH [OF call prefix_at_depth_Suc [OF Suc.prems(2)]] sub show ?thesis by auto
    next
      case False
      with calls i have "subs ! i = []" by (auto split: if_splits)
      then show ?thesis by (simp add: indented_empty prefix_at_depth_Suc [OF Suc.prems(2)])
    qed
    then have "indented d prefix (level_text prefix ?es subs)"
      using len Suc.prems(2) by (intro indented.intros) auto
    with outeq out_read_entries [OF listed(2)] show ?thesis by simp
  qed
qed

subsection \<open>Lines, connectors and the order of the output\<close>

text \<open>
  Claim C2. What the loop over the sorted entries writes is the text of one
  level: for each entry, in order, the prefix, the connector, the name and a
  newline, followed by what is written below that entry, which is nothing for
  a file. The connector is the corner for the entry at the last index and for
  no other; every other entry has the tee.
\<close>

theorem print_entries_line_format:
  assumes "print_entries fuel env path lvl prefix entries s = Some s'"
  shows "(\<exists>subs. length subs = length entries
           \<and> out s' = out s @ level_text prefix entries subs
           \<and> (\<forall>i<length entries. \<not> is_dir (entries ! i) \<longrightarrow> subs ! i = [])
           \<and> (\<forall>i<length entries.
                 connector (i = length entries - 1) = connector True \<longleftrightarrow> i = length entries - 1))
         \<and> connector True = [CHR 0xE2, CHR 0x94, CHR 0x94, CHR 0xE2, CHR 0x94, CHR 0x80, CHR 0xE2, CHR 0x94, CHR 0x80, CHR '' '']
         \<and> connector False = [CHR 0xE2, CHR 0x94, CHR 0x9C, CHR 0xE2, CHR 0x94, CHR 0x80, CHR 0xE2, CHR 0x94, CHR 0x80, CHR '' '']"
proof -
  from print_entries_text [OF assms] obtain subs where
    "length subs = length entries" "out s' = out s @ level_text prefix entries subs"
    and subs: "\<forall>i<length entries.
                 if is_dir (entries ! i)
                 then \<exists>t t'. list_directory_recursive fuel env (full_path path (name (entries ! i)))
                                (lvl + 1) (new_prefix prefix (i = length entries - 1)) t = Some t'
                              \<and> out t' = out t @ subs ! i
                 else subs ! i = []"
    by blast
  moreover from subs have "\<forall>i<length entries. \<not> is_dir (entries ! i) \<longrightarrow> subs ! i = []"
    by (auto split: if_splits)
  moreover have "connector b = connector True \<longleftrightarrow> b" for b
    by (simp add: connector_def)
  ultimately have "\<exists>subs. length subs = length entries
           \<and> out s' = out s @ level_text prefix entries subs
           \<and> (\<forall>i<length entries. \<not> is_dir (entries ! i) \<longrightarrow> subs ! i = [])
           \<and> (\<forall>i<length entries.
                 connector (i = length entries - 1) = connector True \<longleftrightarrow> i = length entries - 1)"
    by blast
  then show ?thesis by (simp add: connector_def)
qed

theorem print_entries_line_format_witness:
  "print_entries 1 envB ''.'' 0 [] entriesB initial_state
     = Some \<lparr>out = outB, err = [], nalloc = 2, heap = {#}\<rparr>
   \<and> (\<exists>subs. length subs = length entriesB
           \<and> out \<lparr>out = outB, err = [], nalloc = 2, heap = {#}\<rparr>
               = out initial_state @ level_text [] entriesB subs
           \<and> (\<forall>i<length entriesB. \<not> is_dir (entriesB ! i) \<longrightarrow> subs ! i = [])
           \<and> (\<forall>i<length entriesB.
                 connector (i = length entriesB - 1) = connector True \<longleftrightarrow> i = length entriesB - 1))
   \<and> connector True = [CHR 0xE2, CHR 0x94, CHR 0x94, CHR 0xE2, CHR 0x94, CHR 0x80, CHR 0xE2, CHR 0x94, CHR 0x80, CHR '' '']
   \<and> connector False = [CHR 0xE2, CHR 0x94, CHR 0x9C, CHR 0xE2, CHR 0x94, CHR 0x80, CHR 0xE2, CHR 0x94, CHR 0x80, CHR '' '']"
proof -
  have run: "print_entries 1 envB ''.'' 0 [] entriesB initial_state
     = Some \<lparr>out = outB, err = [], nalloc = 2, heap = {#}\<rparr>"
    by (simp add: envB_def outB_def entriesB_def run_defs PATH_MAX_def connector_def indent_unit_def)
  from run print_entries_line_format [OF run] show ?thesis by (rule conjI)
qed

text \<open>
  Claim C4. The text a call writes for a directory that it lists has the lines
  in the order of the sorted entries; the line of an entry comes first, then
  all of what the recursive call for that entry writes, which is nothing for a
  file, and only then the line of the next entry.
\<close>

theorem listing_printed_in_preorder:
  assumes "list_directory_recursive (Suc fuel) env path lvl prefix s = Some s'"
    and "fs_opendir env path = Some names"
    and "read_entries env path names (opened path s) = (Some entries, s1)"
  shows "\<exists>subs. length subs = length entries
           \<and> out s' = out s @ level_text prefix (qsort compareDirEntries entries) subs
           \<and> (\<forall>i<length entries.
                 if is_dir (qsort compareDirEntries entries ! i)
                 then \<exists>t t'. list_directory_recursive fuel env
                                (full_path path (name (qsort compareDirEntries entries ! i)))
                                (lvl + 1) (new_prefix prefix (i = length entries - 1)) t = Some t'
                              \<and> out t' = out t @ subs ! i
                 else subs ! i = [])"
proof -
  from assms have "print_entries fuel env path lvl prefix (qsort compareDirEntries entries) s1 = Some s'"
    by simp
  moreover have o: "out s1 = out s"
    using out_read_entries [OF assms(3)] by simp
  ultimately show ?thesis
    using print_entries_text [of fuel env path lvl prefix "qsort compareDirEntries entries" s1 s']
    unfolding length_qsort o by blast
qed

theorem listing_printed_in_preorder_witness:
  "list_directory_recursive (Suc 1) envB ''.'' 0 [] initial_state
     = Some \<lparr>out = outB, err = [], nalloc = 5, heap = {#}\<rparr>
   \<and> fs_opendir envB ''.'' = Some [''file2.txt'', ''.'', ''dir1'', ''..'']
   \<and> read_entries envB ''.'' [''file2.txt'', ''.'', ''dir1'', ''..''] (opened ''.'' initial_state)
       = (Some readB, \<lparr>out = [], err = [], nalloc = 3,
            heap = {#Name_copy ''dir1'', Name_copy ''file2.txt'', Entries_array#}\<rparr>)
   \<and> qsort compareDirEntries readB = entriesB
   \<and> (\<exists>subs. length subs = length readB
           \<and> out \<lparr>out = outB, err = [], nalloc = 5, heap = {#}\<rparr>
               = out initial_state @ level_text [] (qsort compareDirEntries readB) subs
           \<and> (\<forall>i<length readB.
                 if is_dir (qsort compareDirEntries readB ! i)
                 then \<exists>t t'. list_directory_recursive 1 envB
                                (full_path ''.'' (name (qsort compareDirEntries readB ! i)))
                                (0 + 1) (new_prefix [] (i = length readB - 1)) t = Some t'
                              \<and> out t' = out t @ subs ! i
                 else subs ! i = []))"
proof -
  have run: "list_directory_recursive (Suc 1) envB ''.'' 0 [] initial_state
     = Some \<lparr>out = outB, err = [], nalloc = 5, heap = {#}\<rparr>"
    using run_B by (simp add: numeral_2_eq_2)
  have opn: "fs_opendir envB ''.'' = Some [''file2.txt'', ''.'', ''dir1'', ''..'']"
    by (simp add: envB_def)
  have rd: "read_entries envB ''.'' [''file2.txt'', ''.'', ''dir1'', ''..''] (opened ''.'' initial_state)
       = (Some readB, \<lparr>out = [], err = [], nalloc = 3,
            heap = {#Name_copy ''dir1'', Name_copy ''file2.txt'', Entries_array#}\<rparr>)"
    by (simp add: envB_def readB_def run_defs PATH_MAX_def)
  have srt: "qsort compareDirEntries readB = entriesB"
    by (simp add: qsort_def compareDirEntries_def entriesB_def readB_def)
  from run opn rd srt listing_printed_in_preorder [OF run opn rd]
  show ?thesis by (intro conjI)
qed

subsection \<open>The prefix of a nested level\<close>

lemma full_path_fits:
  "length path + length d_name + 2 \<le> PATH_MAX \<Longrightarrow> full_path path d_name = path @ ''/'' @ d_name"
  by (simp add: full_path_def snprintf_def)


lemma line_state:
  "printf (name e @ [CHR 0x0A]) (printf (connector b) (printf prefix s))
     = s\<lparr>out := out s @ prefix @ connector b @ name e @ [CHR 0x0A]\<rparr>"
  by (simp add: printf_def)

lemma calls_are_indented:
  "list_directory_recursive fuel env path d prefix s = Some s' \<Longrightarrow> prefix_at_depth d prefix \<Longrightarrow>
     call_indented fuel env path d prefix s s'"
  "print_entries fuel env path d prefix entries s = Some s' \<Longrightarrow> prefix_at_depth d prefix \<Longrightarrow>
     loop_indented fuel env path d prefix entries s s'"
proof (induction fuel env path d prefix s and fuel env path d prefix entries s
    arbitrary: s' and s' rule: list_directory_recursive_print_entries.induct)
  case (1 env path indent_level prefix s)
  then show ?case by simp
next
  case (2 fuel env path indent_level prefix s)
  from "2.prems"(1) show ?case
  proof (cases rule: list_directory_recursive_SucE)
    case open_failed
    with "2.prems" show ?thesis by (intro not_listed) auto
  next
    case (alloc_failed names)
    with "2.prems" show ?thesis by (intro not_listed) auto
  next
    case (listed names entries s1)
    from "2.IH" [OF listed(1) listed(2) [symmetric] refl listed(3) "2.prems"(2)]
    show ?thesis using "2.prems" listed(1,2) by (rule call_indented_loop_indented.listed [rotated 4])
  qed
next
  case (3 fuel env path indent_level prefix s)
  then show ?case by (intro no_entry_left)
next
  case (4 fuel env path indent_level prefix current_entry rest s)
  let ?s1 = "s\<lparr>out := out s @ prefix @ connector (rest = []) @ name current_entry @ [CHR 0x0A]\<rparr>"
  from "4.prems"(1) show ?case
  proof (cases rule: print_entries_ConsE)
    case (1 s2)
    note loop = "4.IH"(2) [OF refl refl 1(1) 1(2) "4.prems"(2)]
    show ?thesis
    proof (cases "is_dir current_entry")
      case True
      with 1(1) have call: "list_directory_recursive fuel env (full_path path (name current_entry))
          (indent_level + 1) (new_prefix prefix (rest = []))
          (printf (name current_entry @ [CHR 0x0A]) (printf (connector (rest = [])) (printf prefix s)))
          = Some s2"
        by simp
      have "prefix_at_depth (indent_level + 1) (new_prefix prefix (rest = []))"
        using prefix_at_depth_Suc [OF "4.prems"(2)] by simp
      from "4.IH"(1) [OF refl refl True call this]
      have "call_indented fuel env (full_path path (name current_entry)) (indent_level + 1)
              (new_prefix prefix (rest = [])) ?s1 s2"
        by (simp add: line_state)
      with "4.prems"(1) True show ?thesis using loop by (rule directory_entry)
    next
      case False
      with 1(1) have "s2 = ?s1" by (simp add: line_state)
      with loop have "loop_indented fuel env path indent_level prefix rest
                        (free (Name_copy (name current_entry)) ?s1) s'"
        by simp
      with "4.prems"(1) False show ?thesis by (rule file_entry)
    qed
  qed
qed

lemma call_indented_returns:
  "call_indented fuel env path d prefix s s' \<Longrightarrow>
     list_directory_recursive fuel env path d prefix s = Some s' \<and> prefix_at_depth d prefix"
  by (erule call_indented.cases) simp_all

text \<open>
  Claim C3, as amended. For every entry that is a directory, the recursive
  call is made with the prefix \<open>new_prefix prefix is_last\<close>: the prefix of the
  parent extended by one unit of four characters (four spaces when the entry
  is the last of its level, the vertical line \<open>E2 94 82\<close> and three spaces, six
  bytes, otherwise) and cut to \<open>PATH_MAX - 1\<close> bytes; it is the extended prefix
  whenever that fits. The loop makes that call, at the next level, right after
  the line of the entry and goes on from the state it returns. So in a run
  that starts with a prefix as \<open>prefix_at_depth\<close> says, every call has such a
  prefix (\<open>call_indented\<close>): at depth \<open>d\<close> it is \<open>4 * d\<close> characters long as long
  as \<open>6 * d < PATH_MAX\<close>, and no prefix is longer than \<open>PATH_MAX - 1\<close> bytes.
\<close>

theorem child_prefix_is_cut:
  assumes "list_directory_recursive fuel env path d prefix s = Some s'"
    and "prefix_at_depth d prefix"
  shows "call_indented fuel env path d prefix s s'
         \<and> indent_unit True = ''    ''
         \<and> indent_unit False = [CHR 0xE2, CHR 0x94, CHR 0x82, CHR '' '', CHR '' '', CHR '' '']
         \<and> (\<forall>b. new_prefix prefix b = take (PATH_MAX - 1) (prefix @ indent_unit b)
                \<and> utf8_length (indent_unit b) = 4
                \<and> length (new_prefix prefix b) < PATH_MAX
                \<and> (length prefix + length (indent_unit b) < PATH_MAX
                     \<longrightarrow> new_prefix prefix b = prefix @ indent_unit b)
                \<and> prefix_at_depth (d + 1) (new_prefix prefix b))
         \<and> (print_entries f env path d prefix (e # rest) t = Some t' \<and> is_dir e \<longrightarrow>
              (\<exists>t2. list_directory_recursive f env (full_path path (name e)) (d + 1)
                       (new_prefix prefix (rest = []))
                       (t\<lparr>out := out t @ prefix @ connector (rest = []) @ name e @ [CHR 0x0A]\<rparr>) = Some t2
                    \<and> print_entries f env path d prefix rest (free (Name_copy (name e)) t2) = Some t'))"
proof -
  have tree: "call_indented fuel env path d prefix s s'"
    using assms by (rule calls_are_indented(1))
  have units: "indent_unit True = ''    ''"
    "indent_unit False = [CHR 0xE2, CHR 0x94, CHR 0x82, CHR '' '', CHR '' '', CHR '' '']"
    by (simp_all add: indent_unit_def)
  have cut: "new_prefix prefix b = take (PATH_MAX - 1) (prefix @ indent_unit b)
                \<and> utf8_length (indent_unit b) = 4
                \<and> length (new_prefix prefix b) < PATH_MAX
                \<and> (length prefix + length (indent_unit b) < PATH_MAX
                     \<longrightarrow> new_prefix prefix b = prefix @ indent_unit b)
                \<and> prefix_at_depth (d + 1) (new_prefix prefix b)" for b
    using prefix_at_depth_Suc [OF assms(2), of b] length_new_prefix [of prefix b]
    by (simp add: new_prefix_fits) (simp add: new_prefix_def snprintf_def)
  have step: "\<exists>t2. list_directory_recursive f env (full_path path (name e)) (d + 1)
                       (new_prefix prefix (rest = []))
                       (t\<lparr>out := out t @ prefix @ connector (rest = []) @ name e @ [CHR 0x0A]\<rparr>) = Some t2
                    \<and> print_entries f env path d prefix rest (free (Name_copy (name e)) t2) = Some t'"
    if "print_entries f env path d prefix (e # rest) t = Some t' \<and> is_dir e"
  proof -
    from that have p: "print_entries f env path d prefix (e # rest) t = Some t'"
      by (rule conjunct1)
    from that have dir: "is_dir e"
      by (rule conjunct2)
    from p show ?thesis
    proof (cases rule: print_entries_ConsE)
      case (1 t2)
      from 1(1) dir have "list_directory_recursive f env (full_path path (name e)) (d + 1)
                 (new_prefix prefix (rest = []))
                 (t\<lparr>out := out t @ prefix @ connector (rest = []) @ name e @ [CHR 0x0A]\<rparr>) = Some t2"
        unfolding line_state by simp
      with 1(2) show ?thesis by blast
    qed
  qed
  from tree units cut step show ?thesis by blast
qed

theorem child_prefix_is_cut_witness:
  "list_directory_recursive 2 envB ''.'' 0 [] initial_state
     = Some \<lparr>out = outB, err = [], nalloc = 5, heap = {#}\<rparr>
   \<and> prefix_at_depth 0 []
   \<and> call_indented 2 envB ''.'' 0 [] initial_state \<lparr>out = outB, err = [], nalloc = 5, heap = {#}\<rparr>
   \<and> indent_unit True = ''    ''
   \<and> indent_unit False = [CHR 0xE2, CHR 0x94, CHR 0x82, CHR '' '', CHR '' '', CHR '' '']
   \<and> (\<forall>b. new_prefix [] b = take (PATH_MAX - 1) ([] @ indent_unit b)
          \<and> utf8_length (indent_unit b) = 4
          \<and> length (new_prefix [] b) < PATH_MAX
          \<and> (length ([] :: string) + length (indent_unit b) < PATH_MAX
               \<longrightarrow> new_prefix [] b = [] @ indent_unit b)
          \<and> prefix_at_depth (0 + 1) (new_prefix [] b))
   \<and> print_entries 1 envB ''.'' 0 []
       (\<lparr>name = ''dir1'', is_dir = True\<rparr> # [\<lparr>name = ''file2.txt'', is_dir = False\<rparr>])
       \<lparr>out = [], err = [], nalloc = 3,
        heap = {#Name_copy ''dir1'', Name_copy ''file2.txt'', Entries_array#}\<rparr>
     = Some \<lparr>out = outB, err = [], nalloc = 5, heap = {#}\<rparr>
   \<and> is_dir \<lparr>name = ''dir1'', is_dir = True\<rparr>
   \<and> new_prefix [] ([\<lparr>name = ''file2.txt'', is_dir = False\<rparr>] = [])
       = [CHR 0xE2, CHR 0x94, CHR 0x82, CHR '' '', CHR '' '', CHR '' '']
   \<and> (\<exists>t2. list_directory_recursive 1 envB (full_path ''.'' (name \<lparr>name = ''dir1'', is_dir = True\<rparr>)) (0 + 1)
              (new_prefix [] ([\<lparr>name = ''file2.txt'', is_dir = False\<rparr>] = []))
              (\<lparr>out = [], err = [], nalloc = 3,
                heap = {#Name_copy ''dir1'', Name_copy ''file2.txt'', Entries_array#}\<rparr>
                 \<lparr>out := out \<lparr>out = [], err = [], nalloc = 3,
                                heap = {#Name_copy ''dir1'', Name_copy ''file2.txt'', Entries_array#}\<rparr>
                          @ [] @ connector ([\<lparr>name = ''file2.txt'', is_dir = False\<rparr>] = [])
                          @ name \<lparr>name = ''dir1'', is_dir = True\<rparr> @ [CHR 0x0A]\<rparr>) = Some t2
           \<and> print_entries 1 envB ''.'' 0 [] [\<lparr>name = ''file2.txt'', is_dir = False\<rparr>]
                (free (Name_copy (name \<lparr>name = ''dir1'', is_dir = True\<rparr>)) t2)
              = Some \<lparr>out = outB, err = [], nalloc = 5, heap = {#}\<rparr>)"
proof -
  have loop: "print_entries 1 envB ''.'' 0 []
       (\<lparr>name = ''dir1'', is_dir = True\<rparr> # [\<lparr>name = ''file2.txt'', is_dir = False\<rparr>])
       \<lparr>out = [], err = [], nalloc = 3,
        heap = {#Name_copy ''dir1'', Name_copy ''file2.txt'', Entries_array#}\<rparr>
     = Some \<lparr>out = outB, err = [], nalloc = 5, heap = {#}\<rparr>"
    by (simp add: envB_def outB_def run_defs PATH_MAX_def connector_def indent_unit_def)
  have d: "is_dir \<lparr>name = ''dir1'', is_dir = True\<rparr>" by simp
  have np: "new_prefix [] ([\<lparr>name = ''file2.txt'', is_dir = False\<rparr>] = [])
       = [CHR 0xE2, CHR 0x94, CHR 0x82, CHR '' '', CHR '' '', CHR '' '']"
    by (simp add: new_prefix_def snprintf_def PATH_MAX_def indent_unit_def)
  note inst = child_prefix_is_cut [OF run_B prefix_at_depth_0, of 1 "\<lparr>name = ''dir1'', is_dir = True\<rparr>"
      "[\<lparr>name = ''file2.txt'', is_dir = False\<rparr>]"
      "\<lparr>out = [], err = [], nalloc = 3,
        heap = {#Name_copy ''dir1'', Name_copy ''file2.txt'', Entries_array#}\<rparr>"
      "\<lparr>out = outB, err = [], nalloc = 5, heap = {#}\<rparr>"]
  from inst run_B prefix_at_depth_0 loop d np show ?thesis by blast
qed

subsection \<open>A run through 1024 nested directories\<close>

lemma length_chain: "length (chain k) = 2 * k + 1"
  by (simp add: chain_def length_concat sum_list_replicate)

lemma chain_Suc: "chain (Suc k) = chain k @ ''/d''"
proof -
  have "concat (replicate (Suc k) x) = concat (replicate k x) @ x" for x :: string
    by (induction k) simp_all
  then show ?thesis by (simp add: chain_def)
qed

lemma chain_eq_iff: "chain j = chain k \<longleftrightarrow> j = k"
proof
  assume "chain j = chain k"
  then have "length (chain j) = length (chain k)" by simp
  then show "j = k" by (simp add: length_chain)
qed simp

lemma chain_mem: "chain k \<in> set (map chain [a..<b]) \<longleftrightarrow> a \<le> k \<and> k < b"
  by (auto simp: chain_eq_iff)

lemma chain_f_mem: "chain 1024 @ ''/f'' \<notin> set (map chain [a..<b])"
proof
  assume "chain 1024 @ ''/f'' \<in> set (map chain [a..<b])"
  then obtain j where j: "chain 1024 @ ''/f'' = chain j" by auto
  then have "length (chain 1024 @ ''/f'') = length (chain j)" by simp
  then have "j = Suc 1024" by (simp add: length_chain)
  with j have "chain 1024 @ ''/f'' = chain 1024 @ ''/d''" by (simp only: chain_Suc)
  then show False by simp
qed

lemma opendir_chain:
  "k < 1024 \<Longrightarrow> fs_opendir env_chain (chain k) = Some [''.'', ''..'', ''d'']"
  "fs_opendir env_chain (chain 1024) = Some [''.'', ''..'', ''f'']"
  unfolding env_chain_def by (simp_all add: chain_mem del: set_map set_upt)

lemma stat_chain:
  "k < 1024 \<Longrightarrow> fs_stat env_chain (chain (Suc k)) = Some True"
  "fs_stat env_chain (chain 1024 @ ''/f'') = Some False"
  unfolding env_chain_def by (simp_all add: chain_mem chain_f_mem del: set_map set_upt)

lemma alloc_chain: "alloc_ok env_chain k"
  by (simp add: env_chain_def)

lemma full_path_chain:
  "k < 1024 \<Longrightarrow> full_path (chain k) ''d'' = chain (Suc k)"
  "full_path (chain 1024) ''f'' = chain 1024 @ ''/f''"
  by (simp_all add: full_path_fits PATH_MAX_def length_chain chain_Suc)

lemma new_prefix_spaces:
  "new_prefix (replicate n CHR '' '') True = replicate (min 4095 (n + 4)) CHR '' ''"
proof -
  have "indent_unit True = replicate 4 CHR '' ''"
    by (simp add: indent_unit_def eval_nat_numeral)
  then have "replicate n CHR '' '' @ indent_unit True = replicate (n + 4) CHR '' ''"
    by (simp only: replicate_add)
  then show ?thesis
    by (simp add: new_prefix_def snprintf_def PATH_MAX_def)
qed

lemma chain_end:
  "list_directory_recursive (Suc n) env_chain (chain 1024) lvl prefix s
     = Some (s\<lparr>out := out s @ prefix @ connector True @ ''f'' @ [CHR 0x0A], nalloc := nalloc s + 2\<rparr>)"
  by (simp add: opendir_chain stat_chain full_path_chain alloc_chain alloc_def realloc_def opened_def
      perror_def closedir_def free_def qsort_def printf_def read_entries_def)

lemma chain_step:
  assumes "k < 1024"
    and "\<And>t. list_directory_recursive (Suc n) env_chain (chain (Suc k)) (Suc k)
                (new_prefix prefix True) t
              = Some (t\<lparr>out := out t @ below, nalloc := nalloc t + m\<rparr>)"
  shows "list_directory_recursive (Suc (Suc n)) env_chain (chain k) k prefix s
     = Some (s\<lparr>out := out s @ prefix @ connector True @ ''d'' @ [CHR 0x0A] @ below,
               nalloc := nalloc s + m + 2\<rparr>)"
  using assms(1)
  apply (subst list_directory_recursive.simps(2))
  apply (simp add: opendir_chain stat_chain full_path_chain alloc_chain alloc_def realloc_def opened_def
      perror_def closedir_def free_def qsort_def printf_def read_entries_def assms(2)
      del: list_directory_recursive.simps)
  done

lemma chain_run:
  "k + n = 1024 \<Longrightarrow>
     list_directory_recursive (Suc n) env_chain (chain k) k (replicate (min 4095 (4 * k)) CHR '' '') s
       = Some (s\<lparr>out := out s @ concat (map chain_line [k..<1024])
                              @ replicate 4095 CHR '' '' @ connector True @ ''f'' @ [CHR 0x0A],
                 nalloc := nalloc s + 2 * Suc n\<rparr>)"
proof (induction n arbitrary: k s)
  case 0
  then have k: "k = 1024" by simp
  show ?case unfolding k by (simp add: chain_end del: list_directory_recursive.simps)
next
  case (Suc n)
  then have k: "k < 1024" and kn: "Suc k + n = 1024" by simp_all
  from k have pre: "replicate (min 4095 (4 * k)) CHR '' '' = replicate (4 * k) CHR '' ''"
    by simp
  from k have nxt: "new_prefix (replicate (4 * k) CHR '' '') True
                      = replicate (min 4095 (4 * Suc k)) CHR '' ''"
    by (simp add: new_prefix_spaces)
  from k have idx: "[k..<1024] = k # [Suc k..<1024]"
    by (simp add: upt_conv_Cons)
  have "list_directory_recursive (Suc (Suc n)) env_chain (chain k) k (replicate (4 * k) CHR '' '') s
     = Some (s\<lparr>out := out s @ replicate (4 * k) CHR '' '' @ connector True @ ''d'' @ [CHR 0x0A]
                         @ (concat (map chain_line [Suc k..<1024])
                              @ replicate 4095 CHR '' '' @ connector True @ ''f'' @ [CHR 0x0A]),
               nalloc := nalloc s + 2 * Suc n + 2\<rparr>)"
    by (rule chain_step [OF k]) (simp only: nxt Suc.IH [OF kn])
  then show ?case
    unfolding pre idx by (simp add: chain_line_def [of k] del: list_directory_recursive.simps)
qed

lemma new_prefix_last_level:
  "new_prefix (replicate 4092 CHR '' '') True = replicate 4095 CHR '' ''"
  by (simp add: new_prefix_spaces)

text \<open>
  Against claim C3 as stated: in the chain of directories every entry is the
  last of its level, so the prefix grows by four spaces per level, up to 4092
  spaces at depth 1023. The prefix for depth 1024 is cut to 4095 bytes, three
  spaces more and not four, and the line of the file \<^verbatim>\<open>f\<close> is printed with it.
\<close>

theorem child_prefix_counterexample:
  "main 1025 env_chain [''ntree'']
     = Some (0, \<lparr>out = ''.'' @ [CHR 0x0A] @ concat (map chain_line [0..<1024])
                         @ replicate 4095 CHR '' '' @ connector True @ ''f'' @ [CHR 0x0A],
                 err = [], nalloc = 2050, heap = {#}\<rparr>)
   \<and> chain_line 1023 = replicate 4092 CHR '' '' @ connector True @ ''d'' @ [CHR 0x0A]
   \<and> new_prefix (replicate 4092 CHR '' '') True = replicate 4095 CHR '' ''
   \<and> new_prefix (replicate 4092 CHR '' '') True
       \<noteq> replicate 4092 CHR '' '' @ indent_unit True
   \<and> utf8_length (replicate 4095 CHR '' '') \<noteq> 4 * 1024"
proof -
  have "list_directory_recursive (Suc 1024) env_chain (chain 0) 0 (replicate (min 4095 (4 * 0)) CHR '' '')
          (printf (''.'' @ [CHR 0x0A]) initial_state)
       = Some ((printf (''.'' @ [CHR 0x0A]) initial_state)
                 \<lparr>out := out (printf (''.'' @ [CHR 0x0A]) initial_state) @ concat (map chain_line [0..<1024])
                              @ replicate 4095 CHR '' '' @ connector True @ ''f'' @ [CHR 0x0A],
                   nalloc := nalloc (printf (''.'' @ [CHR 0x0A]) initial_state) + 2 * Suc 1024\<rparr>)"
    by (rule chain_run) simp
  then have run: "main 1025 env_chain [''ntree'']
     = Some (0, \<lparr>out = ''.'' @ [CHR 0x0A] @ concat (map chain_line [0..<1024])
                         @ replicate 4095 CHR '' '' @ connector True @ ''f'' @ [CHR 0x0A],
                 err = [], nalloc = 2050, heap = {#}\<rparr>)"
    by (simp add: main_def start_path_def chain_def printf_def initial_state_def del: list_directory_recursive.simps upt_Suc)
  have len: "length (new_prefix (replicate 4092 CHR '' '') True) = 4095"
    by (simp add: new_prefix_last_level)
  have "new_prefix (replicate 4092 CHR '' '') True
       \<noteq> replicate 4092 CHR '' '' @ indent_unit True"
  proof
    assume "new_prefix (replicate 4092 CHR '' '') True
              = replicate 4092 CHR '' '' @ indent_unit True"
    then have "length (new_prefix (replicate 4092 CHR '' '') True)
                 = length (replicate 4092 CHR '' '' @ indent_unit True)"
      by simp
    with len show False by (simp add: indent_unit_def)
  qed
  moreover have "utf8_length (replicate 4095 CHR '' '') = 4095"
    by (simp add: utf8_length_def)
  ultimately show ?thesis
    using run new_prefix_last_level by (simp add: chain_line_def)
qed

subsection \<open>Phase 1\<close>

lemma err_simps [simp]:
  "err (printf txt s) = err s"
  "err (fprintf_stderr txt s) = err s @ [Fprintf txt]"
  "err (perror msg s) = err s @ [Perror msg]"
  "err (free r s) = err s"
  "err (opened path s) = err s"
  "err (closedir path s) = err s"
  by (simp_all add: printf_def fprintf_stderr_def perror_def free_def opened_def closedir_def)

lemma nalloc_simps [simp]:
  "nalloc (printf txt s) = nalloc s"
  "nalloc (fprintf_stderr txt s) = nalloc s"
  "nalloc (perror msg s) = nalloc s"
  "nalloc (free r s) = nalloc s"
  "nalloc (opened path s) = nalloc s"
  "nalloc (closedir path s) = nalloc s"
  by (simp_all add: printf_def fprintf_stderr_def perror_def free_def opened_def closedir_def)

lemma heap_simps [simp]:
  "heap (printf txt s) = heap s"
  "heap (fprintf_stderr txt s) = heap s"
  "heap (perror msg s) = heap s"
  "heap (free r s) = heap s - {#r#}"
  "heap (opened path s) = add_mset (Dir_stream path) (heap s)"
  "heap (closedir path s) = heap s - {#Dir_stream path#}"
  by (simp_all add: printf_def fprintf_stderr_def perror_def free_def opened_def closedir_def)

lemma free_names_fields [simp]:
  "err (free_names entries s) = err s"
  "nalloc (free_names entries s) = nalloc s"
  "heap (free_names entries s) = heap s - held_names entries"
  unfolding free_names_def held_names_def
  by (induction entries arbitrary: s) simp_all

lemma cleanup_fields [simp]:
  "err (cleanup entries path s) = err s"
  "nalloc (cleanup entries path s) = nalloc s"
  "heap (cleanup entries path s) = heap s - held_names entries - {#Entries_array#} - {#Dir_stream path#}"
  by (simp_all add: cleanup_def)

lemma alloc_True:
  "alloc env r s = (True, s1) \<Longrightarrow>
     alloc_ok env (nalloc s) \<and> out s1 = out s \<and> err s1 = err s \<and> nalloc s1 = Suc (nalloc s)
     \<and> heap s1 = add_mset r (heap s)"
  by (auto simp: alloc_def split: if_splits)

lemma alloc_False:
  "alloc env r s = (False, s1) \<Longrightarrow>
     \<not> alloc_ok env (nalloc s) \<and> out s1 = out s \<and> err s1 = err s \<and> nalloc s1 = Suc (nalloc s)
     \<and> heap s1 = heap s"
  by (auto simp: alloc_def split: if_splits)

lemma realloc_result:
  "realloc env s = (b, s1) \<Longrightarrow>
     b = alloc_ok env (nalloc s) \<and> out s1 = out s \<and> err s1 = err s \<and> nalloc s1 = Suc (nalloc s)
     \<and> heap s1 = heap s"
  by (auto simp: realloc_def)

text \<open>One round of the loop, told apart by what happens to the name.\<close>

lemma readdir_loop_Cons_cases:
  assumes "readdir_loop env path (d_name # rest) entries capacity s = (r, s')"
  obtains
    (dot) "d_name = ''.'' \<or> d_name = ''..''"
      "readdir_loop env path rest entries capacity s = (r, s')"
  | (stat_failed) "d_name \<noteq> ''.''" "d_name \<noteq> ''..''" "fs_stat env (full_path path d_name) = None"
      "readdir_loop env path rest entries capacity (perror ''Error getting file status'' s) = (r, s')"
  | (realloc_failed) dir s1 where "d_name \<noteq> ''.''" "d_name \<noteq> ''..''"
      "fs_stat env (full_path path d_name) = Some dir" "capacity \<le> length entries"
      "realloc env s = (False, s1)" "r = None"
      "s' = cleanup entries path (perror ''Error: Memory reallocation failed for entries array'' s1)"
  | (strdup_failed) dir capacity' s2 s3 where "d_name \<noteq> ''.''" "d_name \<noteq> ''..''"
      "fs_stat env (full_path path d_name) = Some dir"
      "if capacity \<le> length entries then realloc env s = (True, s2) \<and> capacity' = capacity * 2
       else s2 = s \<and> capacity' = capacity"
      "alloc env (Name_copy d_name) s2 = (False, s3)" "r = None"
      "s' = cleanup entries path (perror ''Error: Memory allocation failed for entry name'' s3)"
  | (stored) dir capacity' s2 s3 where "d_name \<noteq> ''.''" "d_name \<noteq> ''..''"
      "fs_stat env (full_path path d_name) = Some dir"
      "if capacity \<le> length entries then realloc env s = (True, s2) \<and> capacity' = capacity * 2
       else s2 = s \<and> capacity' = capacity"
      "alloc env (Name_copy d_name) s2 = (True, s3)"
      "readdir_loop env path rest (entries @ [\<lparr>name = d_name, is_dir = dir\<rparr>]) capacity' s3 = (r, s')"
  using assms
  by (auto split: if_splits option.splits prod.splits bool.splits)

lemma listed_entries_Nil [simp]: "listed_entries env path [] = []"
  by (simp add: listed_entries_def children_def)

lemma listed_entries_Cons:
  "listed_entries env path (d_name # rest) =
     (if d_name = ''.'' \<or> d_name = ''..'' then listed_entries env path rest
      else case fs_stat env (full_path path d_name) of
             None \<Rightarrow> listed_entries env path rest
           | Some dir \<Rightarrow> \<lparr>name = d_name, is_dir = dir\<rparr> # listed_entries env path rest)"
  by (simp add: listed_entries_def children_def split: option.splits)

lemma stat_failed_Nil [simp]: "stat_failed env path [] = []"
  by (simp add: stat_failed_def children_def)

lemma stat_failed_Cons:
  "stat_failed env path (d_name # rest) =
     (if d_name = ''.'' \<or> d_name = ''..'' then stat_failed env path rest
      else if fs_stat env (full_path path d_name) = None then d_name # stat_failed env path rest
      else stat_failed env path rest)"
  by (simp add: stat_failed_def children_def)


lemma held_names_simps [simp]:
  "held_names [] = {#}"
  "held_names (entries @ others) = held_names entries + held_names others"
  "held_names (e # others) = add_mset (Name_copy (name e)) (held_names others)"
  by (simp_all add: held_names_def)

lemma readdir_loop_Some:
  assumes "readdir_loop env path names entries capacity s = (Some (entries', capacity'), s')"
  shows "entries' = entries @ listed_entries env path names
         \<and> err s' = err s @ replicate (length (stat_failed env path names))
                               (Perror ''Error getting file status'')
         \<and> heap s' = heap s + held_names (listed_entries env path names)
         \<and> nalloc s \<le> nalloc s'
         \<and> (\<forall>k. nalloc s \<le> k \<and> k < nalloc s' \<longrightarrow> alloc_ok env k)"
  using assms
proof (induction names arbitrary: entries capacity s)
  case Nil
  then show ?case by auto
next
  case (Cons d_name rest)
  from Cons.prems show ?case
  proof (cases rule: readdir_loop_Cons_cases)
    case dot
    from Cons.IH [OF dot(2)] dot(1) show ?thesis
      by (simp add: listed_entries_Cons stat_failed_Cons)
  next
    case stat_failed
    from Cons.IH [OF stat_failed(4)] stat_failed(1-3) show ?thesis
      by (simp add: listed_entries_Cons stat_failed_Cons replicate_app_Cons_same)
  next
    case (realloc_failed dir s1)
    then show ?thesis by simp
  next
    case (strdup_failed dir capacity' s2 s3)
    then show ?thesis by simp
  next
    case (stored dir capacity' s2 s3)
    have s2: "err s2 = err s \<and> heap s2 = heap s \<and> nalloc s \<le> nalloc s2
              \<and> (\<forall>k. nalloc s \<le> k \<and> k < nalloc s2 \<longrightarrow> alloc_ok env k)"
    proof (cases "capacity \<le> length entries")
      case True
      with stored(4) have "realloc env s = (True, s2)" by simp
      from realloc_result [OF this] show ?thesis by (auto simp: less_Suc_eq_le)
    next
      case False
      with stored(4) show ?thesis by auto
    qed
    from alloc_True [OF stored(5)] have s3: "alloc_ok env (nalloc s2)" "err s3 = err s2"
      "nalloc s3 = Suc (nalloc s2)" "heap s3 = add_mset (Name_copy d_name) (heap s2)"
      by simp_all
    have ok: "\<forall>k. nalloc s \<le> k \<and> k < nalloc s3 \<longrightarrow> alloc_ok env k"
    proof (intro allI impI)
      fix k assume "nalloc s \<le> k \<and> k < nalloc s3"
      then have "k < nalloc s2 \<or> k = nalloc s2" using s3(3) by auto
      with s2 s3(1) \<open>nalloc s \<le> k \<and> k < nalloc s3\<close> show "alloc_ok env k" by auto
    qed
    from Cons.IH [OF stored(6)] have
      ih: "entries' = (entries @ [\<lparr>name = d_name, is_dir = dir\<rparr>]) @ listed_entries env path rest"
        "err s' = err s3 @ replicate (length (stat_failed env path rest)) (Perror ''Error getting file status'')"
        "heap s' = heap s3 + held_names (listed_entries env path rest)"
        "nalloc s3 \<le> nalloc s'"
        "\<forall>k. nalloc s3 \<le> k \<and> k < nalloc s' \<longrightarrow> alloc_ok env k"
      by simp_all
    have "\<forall>k. nalloc s \<le> k \<and> k < nalloc s' \<longrightarrow> alloc_ok env k"
    proof (intro allI impI)
      fix k assume k: "nalloc s \<le> k \<and> k < nalloc s'"
      show "alloc_ok env k"
      proof (cases "k < nalloc s3")
        case True
        with ok k show ?thesis by simp
      next
        case False
        with ih(5) k show ?thesis by simp
      qed
    qed
    with ih s2 s3 stored(1-3) show ?thesis
      by (simp add: listed_entries_Cons stat_failed_Cons)
  qed
qed

lemma readdir_loop_None:
  assumes "readdir_loop env path names entries capacity s = (None, s')"
  shows "out s' = out s
         \<and> heap s' = heap s - held_names entries - {#Entries_array#} - {#Dir_stream path#}
         \<and> (\<exists>k. nalloc s \<le> k \<and> k < nalloc s' \<and> \<not> alloc_ok env k)
         \<and> (\<exists>ws msg. err s' = err s @ ws @ [Perror msg]
                \<and> msg \<in> {''Error: Memory reallocation failed for entries array'',
                           ''Error: Memory allocation failed for entry name''})"
  using assms
proof (induction names arbitrary: entries capacity s)
  case Nil
  then show ?case by simp
next
  case (Cons d_name rest)
  from Cons.prems show ?case
  proof (cases rule: readdir_loop_Cons_cases)
    case dot
    from Cons.IH [OF dot(2)] show ?thesis .
  next
    case stat_failed
    from Cons.IH [OF stat_failed(4)] obtain k ws msg where
      "out s' = out s"
      "heap s' = heap s - held_names entries - {#Entries_array#} - {#Dir_stream path#}"
      "nalloc s \<le> k \<and> k < nalloc s' \<and> \<not> alloc_ok env k"
      "err s' = err s @ (Perror ''Error getting file status'' # ws) @ [Perror msg]"
      "msg \<in> {''Error: Memory reallocation failed for entries array'',
               ''Error: Memory allocation failed for entry name''}"
      by auto
    then show ?thesis by blast
  next
    case (realloc_failed dir s1)
    from realloc_result [OF realloc_failed(5)] have
      "\<not> alloc_ok env (nalloc s)" "out s1 = out s" "err s1 = err s" "nalloc s1 = Suc (nalloc s)"
      "heap s1 = heap s"
      by simp_all
    with realloc_failed(7) have "out s' = out s"
      "heap s' = heap s - held_names entries - {#Entries_array#} - {#Dir_stream path#}"
      "nalloc s \<le> nalloc s \<and> nalloc s < nalloc s' \<and> \<not> alloc_ok env (nalloc s)"
      "err s' = err s @ [] @ [Perror ''Error: Memory reallocation failed for entries array'']"
      by simp_all
    then show ?thesis by blast
  next
    case (strdup_failed dir capacity' s2 s3)
    have s2: "out s2 = out s \<and> err s2 = err s \<and> heap s2 = heap s \<and> nalloc s \<le> nalloc s2"
    proof (cases "capacity \<le> length entries")
      case True
      with strdup_failed(4) have "realloc env s = (True, s2)" by simp
      from realloc_result [OF this] show ?thesis by simp
    next
      case False
      with strdup_failed(4) show ?thesis by simp
    qed
    from alloc_False [OF strdup_failed(5)] have
      "\<not> alloc_ok env (nalloc s2)" "out s3 = out s2" "err s3 = err s2" "nalloc s3 = Suc (nalloc s2)"
      "heap s3 = heap s2"
      by simp_all
    with s2 strdup_failed(7) have "out s' = out s"
      "heap s' = heap s - held_names entries - {#Entries_array#} - {#Dir_stream path#}"
      "nalloc s \<le> nalloc s2 \<and> nalloc s2 < nalloc s' \<and> \<not> alloc_ok env (nalloc s2)"
      "err s' = err s @ [] @ [Perror ''Error: Memory allocation failed for entry name'']"
      by simp_all
    then show ?thesis by blast
  next
    case (stored dir capacity' s2 s3)
    have s2: "out s2 = out s \<and> err s2 = err s \<and> heap s2 = heap s \<and> nalloc s \<le> nalloc s2"
    proof (cases "capacity \<le> length entries")
      case True
      with stored(4) have "realloc env s = (True, s2)" by simp
      from realloc_result [OF this] show ?thesis by simp
    next
      case False
      with stored(4) show ?thesis by simp
    qed
    from alloc_True [OF stored(5)] have s3: "out s3 = out s2" "err s3 = err s2"
      "nalloc s3 = Suc (nalloc s2)" "heap s3 = add_mset (Name_copy d_name) (heap s2)"
      by simp_all
    from Cons.IH [OF stored(6)] obtain k ws msg where
      "out s' = out s3"
      "heap s' = heap s3 - held_names (entries @ [\<lparr>name = d_name, is_dir = dir\<rparr>])
                 - {#Entries_array#} - {#Dir_stream path#}"
      "nalloc s3 \<le> k \<and> k < nalloc s' \<and> \<not> alloc_ok env k"
      "err s' = err s3 @ ws @ [Perror msg]"
      "msg \<in> {''Error: Memory reallocation failed for entries array'',
               ''Error: Memory allocation failed for entry name''}"
      by auto
    with s2 s3 have "out s' = out s"
      "heap s' = heap s - held_names entries - {#Entries_array#} - {#Dir_stream path#}"
      "nalloc s \<le> k \<and> k < nalloc s' \<and> \<not> alloc_ok env k"
      "err s' = err s @ ws @ [Perror msg]"
      by simp_all
    with \<open>msg \<in> _\<close> show ?thesis by blast
  qed
qed

lemma read_entries_Some:
  assumes "read_entries env path names s = (Some entries, s1)"
  shows "entries = listed_entries env path names
         \<and> out s1 = out s
         \<and> err s1 = err s @ replicate (length (stat_failed env path names))
                               (Perror ''Error getting file status'')
         \<and> heap s1 = add_mset Entries_array (heap s) + held_names entries - {#Dir_stream path#}
         \<and> nalloc s < nalloc s1
         \<and> (\<forall>k. nalloc s \<le> k \<and> k < nalloc s1 \<longrightarrow> alloc_ok env k)"
proof -
  from assms obtain sa capacity sb where
    a: "alloc env Entries_array s = (True, sa)"
    and l: "readdir_loop env path names [] 10 sa = (Some (entries, capacity), sb)"
    and s1: "s1 = closedir path sb"
    by (auto simp: read_entries_def split: prod.splits bool.splits option.splits)
  from alloc_True [OF a] have sa: "alloc_ok env (nalloc s)" "out sa = out s" "err sa = err s"
    "nalloc sa = Suc (nalloc s)" "heap sa = add_mset Entries_array (heap s)"
    by simp_all
  from readdir_loop_Some [OF l] have sb: "entries = listed_entries env path names"
    "err sb = err sa @ replicate (length (stat_failed env path names)) (Perror ''Error getting file status'')"
    "heap sb = heap sa + held_names (listed_entries env path names)"
    "nalloc sa \<le> nalloc sb" "\<forall>k. nalloc sa \<le> k \<and> k < nalloc sb \<longrightarrow> alloc_ok env k"
    by simp_all
  have "alloc_ok env k" if "nalloc s \<le> k \<and> k < nalloc sb" for k
  proof (cases "k = nalloc s")
    case True
    with sa(1) show ?thesis by simp
  next
    case False
    with that sa(4) sb(5) show ?thesis by simp
  qed
  with sa sb s1 out_readdir_loop [OF l] show ?thesis by simp
qed

lemma read_entries_None:
  assumes "read_entries env path names s = (None, s1)"
  shows "out s1 = out s
         \<and> heap s1 = heap s - {#Dir_stream path#}
         \<and> (\<exists>k. nalloc s \<le> k \<and> k < nalloc s1 \<and> \<not> alloc_ok env k)
         \<and> (\<exists>ws msg. err s1 = err s @ ws @ [Perror msg]
                \<and> msg \<in> {''Error: Memory allocation failed for entries array'',
                           ''Error: Memory reallocation failed for entries array'',
                           ''Error: Memory allocation failed for entry name''})"
proof (cases "alloc_ok env (nalloc s)")
  case False
  then have "alloc env Entries_array s = (False, s\<lparr>nalloc := Suc (nalloc s)\<rparr>)"
    by (simp add: alloc_def)
  with assms have s1: "s1 = closedir path (perror ''Error: Memory allocation failed for entries array''
                                            (s\<lparr>nalloc := Suc (nalloc s)\<rparr>))"
    by (simp add: read_entries_def)
  then have "out s1 = out s" "heap s1 = heap s - {#Dir_stream path#}"
    "nalloc s \<le> nalloc s \<and> nalloc s < nalloc s1 \<and> \<not> alloc_ok env (nalloc s)"
    "err s1 = err s @ [] @ [Perror ''Error: Memory allocation failed for entries array'']"
    using False by simp_all
  then show ?thesis by blast
next
  case True
  then have a: "alloc env Entries_array s
                  = (True, s\<lparr>nalloc := Suc (nalloc s), heap := add_mset Entries_array (heap s)\<rparr>)"
    by (simp add: alloc_def)
  let ?sa = "s\<lparr>nalloc := Suc (nalloc s), heap := add_mset Entries_array (heap s)\<rparr>"
  from assms a have l: "readdir_loop env path names [] 10 ?sa = (None, s1)"
    by (auto simp: read_entries_def split: prod.splits option.splits)
  from readdir_loop_None [OF l] obtain k ws msg where
    "out s1 = out ?sa"
    "heap s1 = heap ?sa - held_names [] - {#Entries_array#} - {#Dir_stream path#}"
    "nalloc ?sa \<le> k \<and> k < nalloc s1 \<and> \<not> alloc_ok env k"
    "err s1 = err ?sa @ ws @ [Perror msg]"
    "msg \<in> {''Error: Memory reallocation failed for entries array'',
             ''Error: Memory allocation failed for entry name''}"
    by blast
  then have "out s1 = out s" "heap s1 = heap s - {#Dir_stream path#}"
    "nalloc s \<le> k \<and> k < nalloc s1 \<and> \<not> alloc_ok env k"
    "err s1 = err s @ ws @ [Perror msg]"
    "msg \<in> {''Error: Memory allocation failed for entries array'',
             ''Error: Memory reallocation failed for entries array'',
             ''Error: Memory allocation failed for entry name''}"
    by auto
  then show ?thesis by blast
qed

text \<open>Phase 1 fails exactly when one of its allocation requests fails.\<close>

lemma read_entries_fails_iff:
  "fst (read_entries env path names s) = None
     \<longleftrightarrow> (\<exists>k. nalloc s \<le> k \<and> k < nalloc (snd (read_entries env path names s)) \<and> \<not> alloc_ok env k)"
proof (cases "read_entries env path names s")
  case (Pair r s1)
  show ?thesis
  proof (cases r)
    case None
    with Pair read_entries_None [of env path names s s1] show ?thesis by auto
  next
    case (Some entries)
    with Pair read_entries_Some [of env path names s entries s1] show ?thesis by auto
  qed
qed

lemma readdir_loop_capacity:
  assumes "readdir_loop env path names entries capacity s = (Some (entries', capacity'), s')"
    and "capacity = c0 * 2 ^ j" and "length entries \<le> capacity"
    and "j = 0 \<or> c0 * 2 ^ (j - 1) < length entries" and "0 < c0"
  shows "\<exists>k. capacity' = c0 * 2 ^ k \<and> length entries' \<le> capacity'
             \<and> (k = 0 \<or> c0 * 2 ^ (k - 1) < length entries')"
  using assms
proof (induction names arbitrary: entries capacity s j)
  case Nil
  then show ?case by auto
next
  case (Cons d_name rest)
  from Cons.prems(1) show ?case
  proof (cases rule: readdir_loop_Cons_cases)
    case dot
    from Cons.IH [OF dot(2) Cons.prems(2-5)] show ?thesis .
  next
    case stat_failed
    from Cons.IH [OF stat_failed(4) Cons.prems(2-5)] show ?thesis .
  next
    case (realloc_failed dir s1)
    then show ?thesis by simp
  next
    case (strdup_failed dir capacity' s2 s3)
    then show ?thesis by simp
  next
    case (stored dir cap2 s2 s3)
    let ?es = "entries @ [\<lparr>name = d_name, is_dir = dir\<rparr>]"
    show ?thesis
    proof (cases "capacity \<le> length entries")
      case True
      with stored(4) have cap2: "cap2 = capacity * 2" by simp
      from True Cons.prems(3) have full: "length entries = capacity" by simp
      from Cons.prems(2,5) have pos: "0 < capacity" by simp
      have 1: "cap2 = c0 * 2 ^ Suc j" using cap2 Cons.prems(2) by simp
      have 2: "length ?es \<le> cap2" using full cap2 pos by simp
      have 3: "Suc j = 0 \<or> c0 * 2 ^ (Suc j - 1) < length ?es"
        using full Cons.prems(2) by simp
      from Cons.IH [OF stored(6) 1 2 3 Cons.prems(5)] show ?thesis .
    next
      case False
      with stored(4) have cap2: "cap2 = capacity" by simp
      have 1: "cap2 = c0 * 2 ^ j" using cap2 Cons.prems(2) by simp
      have 2: "length ?es \<le> cap2" using False cap2 by simp
      have 3: "j = 0 \<or> c0 * 2 ^ (j - 1) < length ?es"
        using Cons.prems(4) by auto
      from Cons.IH [OF stored(6) 1 2 3 Cons.prems(5)] show ?thesis .
    qed
  qed
qed


subsection \<open>Children, status failures and lines\<close>

lemma run_status:
  "list_directory_recursive (Suc 1) env_status ''.'' 0 [] initial_state
     = Some \<lparr>out = out_status, err = [Perror ''Error getting file status''], nalloc = 4, heap = {#}\<rparr>"
  by (simp add: env_status_def out_status_def run_defs PATH_MAX_def connector_def indent_unit_def)





subsection \<open>A directory that cannot be opened\<close>

text \<open>
  Claim C7. When \<^verbatim>\<open>opendir\<close> fails, the call writes one message to the
  standard error stream and returns with everything else as it was, the
  standard output included. In the loop of the parent, the line of the entry
  has been written before, and the loop goes on with the entries after it.
\<close>

theorem unopened_directory_is_reported_and_skipped:
  assumes "fs_opendir env path = None"
  shows "list_directory_recursive (Suc fuel) env path lvl prefix s
           = Some (s\<lparr>err := err s @ [cannot_open path]\<rparr>)
         \<and> (is_dir e \<and> full_path parent (name e) = path \<longrightarrow>
              print_entries (Suc fuel) env parent plvl pprefix (e # rest) s0
                = print_entries (Suc fuel) env parent plvl pprefix rest
                    (free (Name_copy (name e))
                       (s0\<lparr>out := out s0 @ pprefix @ connector (rest = []) @ name e @ [CHR 0x0A],
                           err := err s0 @ [cannot_open path]\<rparr>)))"
proof -
  have call: "list_directory_recursive (Suc fuel) env path l p t
                = Some (t\<lparr>err := err t @ [cannot_open path]\<rparr>)" for l p t
    using assms by (simp add: cannot_open_def fprintf_stderr_def)
  then show ?thesis
    by (auto simp: printf_def Let_def simp del: list_directory_recursive.simps)
qed

theorem unopened_directory_is_reported_and_skipped_witness:
  "fs_opendir env_secret ''./secret'' = None
   \<and> list_directory_recursive (Suc 0) env_secret ''./secret'' 1 (indent_unit False) initial_state
       = Some (initial_state\<lparr>err := err initial_state @ [cannot_open ''./secret'']\<rparr>)
   \<and> is_dir \<lparr>name = ''secret'', is_dir = True\<rparr>
   \<and> full_path ''.'' (name \<lparr>name = ''secret'', is_dir = True\<rparr>) = ''./secret''
   \<and> print_entries (Suc 0) env_secret ''.'' 0 [] entries_secret initial_state
       = Some \<lparr>out = connector False @ ''secret'' @ [CHR 0x0A] @ connector True @ ''z.txt'' @ [CHR 0x0A],
               err = [cannot_open ''./secret''], nalloc = 0, heap = {#}\<rparr>"
proof -
  have opn: "fs_opendir env_secret ''./secret'' = None"
    by (simp add: env_secret_def)
  have fp: "is_dir \<lparr>name = ''secret'', is_dir = True\<rparr>
            \<and> full_path ''.'' (name \<lparr>name = ''secret'', is_dir = True\<rparr>) = ''./secret''"
    by (simp add: full_path_def snprintf_def PATH_MAX_def)
  note inst = unopened_directory_is_reported_and_skipped [OF opn, of "Suc 0 - 1" _ _ _
      "\<lparr>name = ''secret'', is_dir = True\<rparr>" "''.''" 0 "[]" "[\<lparr>name = ''z.txt'', is_dir = False\<rparr>]"
      initial_state]
  from inst fp have
    "print_entries (Suc 0) env_secret ''.'' 0 [] entries_secret initial_state
       = print_entries (Suc 0) env_secret ''.'' 0 [] [\<lparr>name = ''z.txt'', is_dir = False\<rparr>]
           (free (Name_copy ''secret'')
              (initial_state\<lparr>out := out initial_state @ [] @ connector False @ ''secret'' @ [CHR 0x0A],
                             err := err initial_state @ [cannot_open ''./secret'']\<rparr>))"
    by (simp add: entries_secret_def del: print_entries.simps)
  also have "\<dots> = Some \<lparr>out = connector False @ ''secret'' @ [CHR 0x0A] @ connector True @ ''z.txt'' @ [CHR 0x0A],
               err = [cannot_open ''./secret''], nalloc = 0, heap = {#}\<rparr>"
    by (simp add: initial_state_def free_def printf_def)
  finally have loop: "print_entries (Suc 0) env_secret ''.'' 0 [] entries_secret initial_state
       = Some \<lparr>out = connector False @ ''secret'' @ [CHR 0x0A] @ connector True @ ''z.txt'' @ [CHR 0x0A],
               err = [cannot_open ''./secret''], nalloc = 0, heap = {#}\<rparr>" .
  from inst have "list_directory_recursive (Suc 0) env_secret ''./secret'' 1 (indent_unit False) initial_state
       = Some (initial_state\<lparr>err := err initial_state @ [cannot_open ''./secret'']\<rparr>)"
    by simp
  with opn fp loop show ?thesis by blast
qed

subsection \<open>The growing array\<close>

text \<open>
  Claim C9. The loop appends the entries in the order in which \<^verbatim>\<open>readdir\<close>
  returns them, and they never outgrow the capacity. The capacity at the end
  is the one at the start doubled \<open>k\<close> times, and a doubling happens only once
  the entries have filled the capacity before it. One more round appends its
  entry at the index \<open>length entries'\<close>, with the capacity doubled first exactly
  when the count has reached it. \<open>read_entries\<close> starts the loop with no entry
  and the capacity 10.
\<close>

theorem entries_array_doubles:
  assumes "readdir_loop env path names entries capacity s = (Some (entries', capacity'), s')"
    and "length entries \<le> capacity" and "0 < capacity"
  shows "entries' = entries @ listed_entries env path names
         \<and> length entries' \<le> capacity'
         \<and> (\<exists>k. capacity' = capacity * 2 ^ k \<and> (k = 0 \<or> capacity * 2 ^ (k - 1) < length entries'))
         \<and> (\<forall>d_name dir. d_name \<noteq> ''.'' \<and> d_name \<noteq> ''..''
               \<and> fs_stat env (full_path path d_name) = Some dir
               \<and> alloc_ok env (nalloc s') \<and> alloc_ok env (Suc (nalloc s')) \<longrightarrow>
               fst (readdir_loop env path [d_name] entries' capacity' s')
                 = Some (entries' @ [\<lparr>name = d_name, is_dir = dir\<rparr>],
                         if length entries' = capacity' then capacity' * 2 else capacity'))
         \<and> (read_entries env path names s0 = (Some es, s1) \<longrightarrow>
               (\<exists>sa cap sb k. alloc env Entries_array s0 = (True, sa)
                  \<and> readdir_loop env path names [] 10 sa = (Some (es, cap), sb)
                  \<and> cap = 10 * 2 ^ k \<and> length es \<le> cap
                  \<and> (k = 0 \<or> 10 * 2 ^ (k - 1) < length es)))"
proof -
  from readdir_loop_Some [OF assms(1)] have 1: "entries' = entries @ listed_entries env path names"
    by simp
  from readdir_loop_capacity [OF assms(1), of capacity 0] assms(2,3) obtain k where
    2: "capacity' = capacity * 2 ^ k" "length entries' \<le> capacity'"
       "k = 0 \<or> capacity * 2 ^ (k - 1) < length entries'"
    by auto
  have 3: "fst (readdir_loop env path [d_name] entries' capacity' s')
                 = Some (entries' @ [\<lparr>name = d_name, is_dir = dir\<rparr>],
                         if length entries' = capacity' then capacity' * 2 else capacity')"
    if "d_name \<noteq> ''.'' \<and> d_name \<noteq> ''..'' \<and> fs_stat env (full_path path d_name) = Some dir
        \<and> alloc_ok env (nalloc s') \<and> alloc_ok env (Suc (nalloc s'))" for d_name dir
    using that 2(2) by (auto simp: realloc_def alloc_def)
  have 4: "\<exists>sa cap sb k. alloc env Entries_array s0 = (True, sa)
                  \<and> readdir_loop env path names [] 10 sa = (Some (es, cap), sb)
                  \<and> cap = 10 * 2 ^ k \<and> length es \<le> cap
                  \<and> (k = 0 \<or> 10 * 2 ^ (k - 1) < length es)"
    if "read_entries env path names s0 = (Some es, s1)"
  proof -
    from that obtain sa cap sb where
      a: "alloc env Entries_array s0 = (True, sa)"
      and l: "readdir_loop env path names [] 10 sa = (Some (es, cap), sb)"
      by (auto simp: read_entries_def split: prod.splits bool.splits option.splits)
    from readdir_loop_capacity [OF l, of 10 0] obtain k where
      "cap = 10 * 2 ^ k" "length es \<le> cap" "k = 0 \<or> 10 * 2 ^ (k - 1) < length es"
      by auto
    with a l show ?thesis by blast
  qed
  from 1 2 3 4 show ?thesis by blast
qed

theorem entries_array_doubles_witness:
  "readdir_loop env_files ''.'' names_eleven [] 10 initial_state
     = (Some (entries_eleven, 20), snd (readdir_loop env_files ''.'' names_eleven [] 10 initial_state))
   \<and> length ([] :: DirEntry list) \<le> 10 \<and> (0 :: nat) < 10
   \<and> entries_eleven = [] @ listed_entries env_files ''.'' names_eleven
   \<and> length entries_eleven \<le> 20
   \<and> (\<exists>k. (20 :: nat) = 10 * 2 ^ k \<and> (k = 0 \<or> 10 * 2 ^ (k - 1) < length entries_eleven))
   \<and> fst (read_entries env_files ''.'' names_eleven initial_state) = Some entries_eleven"
proof -
  have rd: "fst (read_entries env_files ''.'' names_eleven initial_state) = Some entries_eleven"
    by (simp add: env_files_def names_eleven_def entries_eleven_def run_defs)
  have "fst (readdir_loop env_files ''.'' names_eleven [] 10 initial_state) = Some (entries_eleven, 20)"
    by (simp add: env_files_def names_eleven_def entries_eleven_def run_defs)
  then have run: "readdir_loop env_files ''.'' names_eleven [] 10 initial_state
     = (Some (entries_eleven, 20), snd (readdir_loop env_files ''.'' names_eleven [] 10 initial_state))"
    by (metis prod.collapse)
  have le: "length ([] :: DirEntry list) \<le> 10" and pos: "(0 :: nat) < 10"
    by simp_all
  from entries_array_doubles [OF run le pos] run rd show ?thesis by simp
qed

subsection \<open>Allocation failures\<close>



subsection \<open>Termination\<close>

text \<open>
  The result \<open>None\<close> stands for calls that nest deeper than the fuel allows.
  When the directories below a path nest to a bounded depth, the call for it
  returns with that much fuel, and a result once reached stays the same with
  more fuel.
\<close>

lemma listed_entries_subdirs:
  assumes "fs_opendir env path = Some names"
    and "e \<in> set (listed_entries env path names)" and "is_dir e"
  shows "full_path path (name e) \<in> set (subdirs env path)"
  using assms
  by (auto simp: listed_entries_def subdirs_def split: option.splits)

lemma print_entries_returns:
  assumes "\<And>e lvl' prefix' t. e \<in> set entries \<Longrightarrow> is_dir e \<Longrightarrow>
             \<exists>t'. list_directory_recursive fuel env (full_path path (name e)) lvl' prefix' t = Some t'"
  shows "\<exists>s'. print_entries fuel env path lvl prefix entries s = Some s'"
  using assms
proof (induction entries arbitrary: s)
  case Nil
  then show ?case by simp
next
  case (Cons e rest)
  let ?s1 = "printf (name e @ [CHR 0x0A]) (printf (connector (rest = [])) (printf prefix s))"
  obtain s2 where s2: "(if is_dir e
               then list_directory_recursive fuel env (full_path path (name e))
                      (lvl + 1) (new_prefix prefix (rest = [])) ?s1
               else Some ?s1) = Some s2"
  proof (cases "is_dir e")
    case True
    with Cons.prems [of e "lvl + 1" "new_prefix prefix (rest = [])" ?s1] that show ?thesis by auto
  next
    case False
    with that show ?thesis by simp
  qed
  from Cons.IH [of "free (Name_copy (name e)) s2"] Cons.prems
  obtain s' where "print_entries fuel env path lvl prefix rest (free (Name_copy (name e)) s2) = Some s'"
    by auto
  with s2 show ?case by (simp add: Let_def)
qed

lemma list_directory_recursive_returns:
  "nested_below env fuel path \<Longrightarrow> \<exists>s'. list_directory_recursive fuel env path lvl prefix s = Some s'"
proof (induction fuel arbitrary: path lvl prefix s)
  case 0
  then show ?case by simp
next
  case (Suc fuel)
  show ?case
  proof (cases "fs_opendir env path")
    case None
    then show ?thesis by simp
  next
    case (Some names)
    obtain r s1 where rd: "read_entries env path names (opened path s) = (r, s1)"
      by (cases "read_entries env path names (opened path s)")
    show ?thesis
    proof (cases r)
      case None
      with Some rd show ?thesis by simp
    next
      case (Some entries)
      with rd have es: "entries = listed_entries env path names"
        using read_entries_Some by blast
      have "\<exists>t'. list_directory_recursive fuel env (full_path path (name e)) lvl' prefix' t = Some t'"
        if "e \<in> set (qsort compareDirEntries entries)" "is_dir e" for e lvl' prefix' t
      proof -
        from that es have "e \<in> set (listed_entries env path names)" by (simp add: set_qsort)
        from listed_entries_subdirs [OF \<open>fs_opendir env path = Some names\<close> this that(2)] Suc.prems
        have "nested_below env fuel (full_path path (name e))" by simp
        then show ?thesis by (rule Suc.IH)
      qed
      from print_entries_returns [of "qsort compareDirEntries entries" fuel env path, OF this]
      obtain s' where "print_entries fuel env path lvl prefix (qsort compareDirEntries entries) s1 = Some s'"
        by blast
      with \<open>fs_opendir env path = Some names\<close> rd Some show ?thesis by simp
    qed
  qed
qed

lemma fuel_mono:
  "list_directory_recursive fuel env path lvl prefix s = Some s' \<Longrightarrow>
     list_directory_recursive (Suc fuel) env path lvl prefix s = Some s'"
  "print_entries fuel env path lvl prefix entries s = Some s' \<Longrightarrow>
     print_entries (Suc fuel) env path lvl prefix entries s = Some s'"
proof (induction fuel env path lvl prefix s and fuel env path lvl prefix entries s
    arbitrary: s' and s' rule: list_directory_recursive_print_entries.induct)
  case (1 env path indent_level prefix s)
  then show ?case by simp
next
  case (2 fuel env path indent_level prefix s)
  from "2.prems" show ?case
  proof (cases rule: list_directory_recursive_SucE)
    case open_failed
    then show ?thesis by simp
  next
    case (alloc_failed names)
    then show ?thesis by simp
  next
    case (listed names entries s1)
    from "2.IH" [OF listed(1) listed(2) [symmetric] refl listed(3)] listed(1,2)
    show ?thesis by simp
  qed
next
  case (3 fuel env path indent_level prefix s)
  then show ?case by simp
next
  case (4 fuel env path indent_level prefix current_entry rest s)
  from "4.prems" show ?case
  proof (cases rule: print_entries_ConsE)
    case (1 s2)
    let ?s1 = "printf (name current_entry @ [CHR 0x0A]) (printf (connector (rest = [])) (printf prefix s))"
    have a: "(if is_dir current_entry
               then list_directory_recursive (Suc fuel) env (full_path path (name current_entry))
                      (indent_level + 1) (new_prefix prefix (rest = [])) ?s1
               else Some ?s1) = Some s2"
    proof (cases "is_dir current_entry")
      case True
      with 1(1) "4.IH"(1) [OF refl refl True, of s2] show ?thesis
        by (simp del: list_directory_recursive.simps)
    next
      case False
      with 1(1) show ?thesis by simp
    qed
    have b: "print_entries (Suc fuel) env path indent_level prefix rest
               (free (Name_copy (name current_entry)) s2) = Some s'"
      using "4.IH"(2) [OF refl refl 1(1) 1(2)] .
    from a b show ?thesis
      by (simp add: Let_def del: list_directory_recursive.simps)
  qed
qed

subsection \<open>The program\<close>

lemma main_usage:
  "2 < length argv \<Longrightarrow> main fuel env argv = Some (1, initial_state\<lparr>err := [usage (argv ! 0)]\<rparr>)"
  by (simp add: main_def start_path_def usage_def fprintf_stderr_def initial_state_def)

lemma main_run:
  "length argv \<le> 2 \<Longrightarrow>
     main fuel env argv
       = map_option (Pair 0)
           (list_directory_recursive fuel env (start_path argv) 0 []
              (initial_state\<lparr>out := start_path argv @ [CHR 0x0A]\<rparr>))"
  by (auto simp: main_def start_path_def printf_def initial_state_def Let_def split: option.splits)

text \<open>
  Claim C8. Without an argument \<open>main\<close> starts from \<^verbatim>\<open>.\<close>, with one argument
  from that argument. With more arguments it writes the usage message to the
  standard error stream and returns 1, whatever the file system holds and
  without a byte on the standard output. Otherwise it writes the starting path
  and a newline and then what \<open>list_directory_recursive\<close> writes for that path
  at level 0 with the empty prefix; when it returns, it returns 0, whatever
  has been reported; and it does return when the directories below the
  starting path nest to a bounded depth.
\<close>

theorem main_arguments_and_status:
  "start_path [prog] = ''.'' \<and> start_path [prog, dir] = dir
   \<and> (2 < length argv \<longrightarrow>
         main fuel env argv = Some (1, initial_state\<lparr>err := [usage (argv ! 0)]\<rparr>))
   \<and> (length argv \<le> 2 \<longrightarrow>
         main fuel env argv
           = map_option (Pair 0)
               (list_directory_recursive fuel env (start_path argv) 0 []
                  (initial_state\<lparr>out := start_path argv @ [CHR 0x0A]\<rparr>))
         \<and> (\<forall>status s. main fuel env argv = Some (status, s) \<longrightarrow>
               status = 0 \<and> (\<exists>txt. out s = start_path argv @ [CHR 0x0A] @ txt \<and> indented 0 [] txt))
         \<and> (nested_below env fuel (start_path argv) \<longrightarrow> (\<exists>s. main fuel env argv = Some (0, s))))"
proof -
  have "status = 0 \<and> (\<exists>txt. out s = start_path argv @ [CHR 0x0A] @ txt \<and> indented 0 [] txt)"
    if le: "length argv \<le> 2" and m: "main fuel env argv = Some (status, s)" for status s
  proof -
    from m main_run [OF le] have
      call: "list_directory_recursive fuel env (start_path argv) 0 []
               (initial_state\<lparr>out := start_path argv @ [CHR 0x0A]\<rparr>) = Some s"
      and st: "status = 0"
      by auto
    from list_directory_recursive_indented [OF call prefix_at_depth_0] st show ?thesis by auto
  qed
  moreover have "\<exists>s. main fuel env argv = Some (0, s)"
    if le: "length argv \<le> 2" and nb: "nested_below env fuel (start_path argv)"
  proof -
    from list_directory_recursive_returns [OF nb] obtain s where
      "list_directory_recursive fuel env (start_path argv) 0 []
         (initial_state\<lparr>out := start_path argv @ [CHR 0x0A]\<rparr>) = Some s"
      by blast
    with main_run [OF le] show ?thesis by simp
  qed
  moreover have "start_path [prog] = ''.''" "start_path [prog, dir] = dir"
    by (simp_all add: start_path_def)
  ultimately show ?thesis using main_usage main_run by blast
qed

theorem main_arguments_and_status_witness:
  "main 0 envB [''ntree'', ''a'', ''b'']
     = Some (1, initial_state\<lparr>err := [usage ''ntree'']\<rparr>)
   \<and> nested_below envB 2 (start_path [''ntree''])
   \<and> main 2 envB [''ntree'']
       = Some (0, \<lparr>out = ''.'' @ [CHR 0x0A] @ outB, err = [], nalloc = 5, heap = {#}\<rparr>)
   \<and> main 1 envB [''ntree'', ''nowhere'']
       = Some (0, \<lparr>out = ''nowhere'' @ [CHR 0x0A], err = [cannot_open ''nowhere''], nalloc = 0, heap = {#}\<rparr>)"
proof -
  have "2 < length [''ntree'', ''a'', ''b'']" by simp
  with main_arguments_and_status [of _ _ "[''ntree'', ''a'', ''b'']" 0 envB]
  have 1: "main 0 envB [''ntree'', ''a'', ''b''] = Some (1, initial_state\<lparr>err := [usage ''ntree'']\<rparr>)"
    by simp
  have 2: "nested_below envB 2 (start_path [''ntree''])"
    by (simp add: start_path_def envB_def subdirs_def children_def full_path_def snprintf_def
        PATH_MAX_def numeral_2_eq_2)
  have 3: "main 2 envB [''ntree'']
       = Some (0, \<lparr>out = ''.'' @ [CHR 0x0A] @ outB, err = [], nalloc = 5, heap = {#}\<rparr>)"
    by (simp add: main_def start_path_def envB_def outB_def run_defs PATH_MAX_def connector_def indent_unit_def
        numeral_2_eq_2)
  have 4: "main 1 envB [''ntree'', ''nowhere'']
       = Some (0, \<lparr>out = ''nowhere'' @ [CHR 0x0A], err = [cannot_open ''nowhere''], nalloc = 0, heap = {#}\<rparr>)"
    by (simp add: main_def start_path_def envB_def run_defs cannot_open_def)
  from 1 2 3 4 show ?thesis by blast
qed

subsection \<open>Joining a path and a name\<close>







text \<open>
  The call on a cut path need not return. In a directory whose path takes 4094
  bytes, the path of every entry is cut to the path of the directory followed
  by a slash: the entry is taken for a directory, the call for it lists the
  same directory again, and so on without end.
\<close>

lemma length_loop_root: "length loop_root = 4094"
  by (simp add: loop_root_def length_concat sum_list_replicate)

lemma full_path_loop:
  "full_path loop_root ''x'' = loop_root @ ''/''"
  "full_path (loop_root @ ''/'') ''x'' = loop_root @ ''/''"
  by (simp_all add: full_path_def snprintf_def PATH_MAX_def length_loop_root)

lemma cut_path_recursion:
  "list_directory_recursive fuel env_loop (loop_root @ ''/'') lvl prefix s = None"
proof (induction fuel arbitrary: lvl prefix s)
  case 0
  show ?case by simp
next
  case (Suc fuel)
  show ?case
    apply (subst list_directory_recursive.simps(2))
    apply (simp add: env_loop_def alloc_def realloc_def opened_def perror_def closedir_def free_def
        qsort_def printf_def read_entries_def full_path_loop del: list_directory_recursive.simps)
    apply (simp add: Suc.IH [unfolded env_loop_def] del: list_directory_recursive.simps)
    done
qed

lemma cut_path_never_returns:
  "main fuel env_loop [''ntree'', loop_root] = None"
proof (cases fuel)
  case 0
  then show ?thesis by (simp add: main_def start_path_def)
next
  case (Suc n)
  have "list_directory_recursive (Suc n) env_loop loop_root 0 [] s = None" for s
    apply (subst list_directory_recursive.simps(2))
    apply (simp add: env_loop_def alloc_def realloc_def opened_def perror_def closedir_def free_def
        qsort_def printf_def read_entries_def full_path_loop del: list_directory_recursive.simps)
    apply (simp add: cut_path_recursion [unfolded env_loop_def] del: list_directory_recursive.simps)
    done
  with Suc show ?thesis by (simp add: main_def start_path_def del: list_directory_recursive.simps)
qed

end
